theory Spec2Isabelle
  imports Main
begin

section \<open>Characters and strings\<close>

text \<open>
  The program classifies bytes with the C library predicates of \<^verbatim>\<open><cctype>\<close>.
  They are modelled in the default "C" locale on the byte value of the character; a byte
  above 127 belongs to none of the classes.
\<close>

definition isspace :: "char \<Rightarrow> bool" where
  "isspace c = (let n = (of_char c :: int) in n = 32 \<or> (9 \<le> n \<and> n \<le> 13))"

definition isdigit :: "char \<Rightarrow> bool" where
  "isdigit c = (let n = (of_char c :: int) in 48 \<le> n \<and> n \<le> 57)"

definition isalpha :: "char \<Rightarrow> bool" where
  "isalpha c = (let n = (of_char c :: int) in (65 \<le> n \<and> n \<le> 90) \<or> (97 \<le> n \<and> n \<le> 122))"

definition isalnum :: "char \<Rightarrow> bool" where
  "isalnum c = (isalpha c \<or> isdigit c)"

definition ispunct :: "char \<Rightarrow> bool" where
  "ispunct c = (let n = (of_char c :: int) in
     (33 \<le> n \<and> n \<le> 47) \<or> (58 \<le> n \<and> n \<le> 64) \<or> (91 \<le> n \<and> n \<le> 96) \<or> (123 \<le> n \<and> n \<le> 126))"

text \<open>The character and string constants of the program.\<close>

definition SEMICOLON :: char where
  "SEMICOLON = CHR 0x3B"

definition LEFT_BRACE :: char where
  "LEFT_BRACE = CHR 0x7B"

definition RIGHT_BRACE :: char where
  "RIGHT_BRACE = CHR 0x7D"

definition C_COMMENT_START :: string where
  "C_COMMENT_START = ''/*''"

definition C_COMMENT_END :: string where
  "C_COMMENT_END = ''*/''"

definition DOUBLE_SLASH :: string where
  "DOUBLE_SLASH = ''//''"

text \<open>
  \<^verbatim>\<open>s.rfind(t, 0) == 0\<close>: the last occurrence of \<open>t\<close> that starts at or before
  position 0 is at position 0, that is, \<open>t\<close> occurs at the start of \<open>s\<close>.
\<close>

definition stringStartsWith :: "string \<Rightarrow> string \<Rightarrow> bool" where
  "stringStartsWith s t = (take (length t) s = t)"

text \<open>
  \<^verbatim>\<open>s.find(t, p)\<close>: the first position at or after \<open>p\<close> where \<open>t\<close> occurs in
  \<open>s\<close>, or nothing (\<^verbatim>\<open>npos\<close>). The search runs over the candidate positions in
  increasing order.
\<close>

definition str_find :: "string \<Rightarrow> string \<Rightarrow> nat \<Rightarrow> nat option" where
  "str_find s t p =
     List.find (\<lambda>i. take (length t) (drop i s) = t) [p..<Suc (length s)]"

text \<open>
  \<^verbatim>\<open>s.find(t, s.length() - t.length()) != npos\<close>. The subtraction is unsigned: when
  \<open>t\<close> is longer than \<open>s\<close> it wraps to a position far beyond the end of \<open>s\<close>, where
  \<^verbatim>\<open>find\<close> finds nothing.
\<close>

definition stringEndsWith :: "string \<Rightarrow> string \<Rightarrow> bool" where
  "stringEndsWith s t =
     (if length s < length t then False
      else str_find s t (length s - length t) \<noteq> None)"

section \<open>Tokenizer\<close>

text \<open>
  The tokenizer's loops all have the shape
  \<^verbatim>\<open>while (pos < getLength(s) && P(s[pos])) pos++\<close>; \<open>advance P s pos\<close> is that loop
  and returns the final position.
\<close>

function advance :: "(char \<Rightarrow> bool) \<Rightarrow> string \<Rightarrow> nat \<Rightarrow> nat" where
  "advance P s pos = (if pos < length s \<and> P (s ! pos) then advance P s (Suc pos) else pos)"
  by pat_completeness auto
termination
  by (relation "measure (\<lambda>(P, s, pos). length s - pos)") auto

declare advance.simps [simp del]

text \<open>
  \<^verbatim>\<open>findTokenEnd\<close> asserts \<open>pos < length s\<close> and that \<open>s ! pos\<close> is no space; its only
  caller \<^verbatim>\<open>getNextToken\<close> establishes both. A character in none of the three classes
  leaves the position where it is.
\<close>

definition findTokenEnd :: "string \<Rightarrow> nat \<Rightarrow> nat" where
  "findTokenEnd s pos =
     (if isalpha (s ! pos) \<or> s ! pos = CHR ''_'' then
        advance (\<lambda>c. isalnum c \<or> c = CHR ''_'') s pos
      else if isdigit (s ! pos) then
        advance (\<lambda>c. isdigit c \<or> c = CHR ''.'') s pos
      else if ispunct (s ! pos) then
        advance ispunct s pos
      else pos)"

text \<open>
  \<^verbatim>\<open>getNextToken(s, pos)\<close> returns the token and, through its reference parameter, the
  new position; the model returns the pair. \<^verbatim>\<open>s.substr(start, n)\<close> is
  \<open>take n (drop start s)\<close>.
\<close>

definition getNextToken :: "string \<Rightarrow> nat \<Rightarrow> string \<times> nat" where
  "getNextToken s pos0 =
     (let pos = advance isspace s pos0 in
      if pos \<ge> length s then ([], pos)
      else (let start = pos; pos' = findTokenEnd s pos
            in (take (pos' - start) (drop start s), pos')))"

definition getFirstToken :: "string \<Rightarrow> string" where
  "getFirstToken s = fst (getNextToken s 0)"

subsection \<open>Progress of the tokenizer\<close>

lemma advance_true:
  "pos < length s \<Longrightarrow> P (s ! pos) \<Longrightarrow> advance P s pos = advance P s (Suc pos)"
  by (subst advance.simps) simp

lemma advance_id: "length s \<le> pos \<or> \<not> P (s ! pos) \<Longrightarrow> advance P s pos = pos"
  by (subst advance.simps) auto

lemma advance_ge: "pos \<le> advance P s pos"
proof (induction P s pos rule: advance.induct)
  case (1 P s pos)
  show ?case
  proof (cases "pos < length s \<and> P (s ! pos)")
    case True
    with 1 have "Suc pos \<le> advance P s (Suc pos)" by simp
    with True show ?thesis by (simp add: advance_true)
  next
    case False
    then have "advance P s pos = pos" by (intro advance_id) auto
    then show ?thesis by simp
  qed
qed

lemma advance_le: "pos \<le> length s \<Longrightarrow> advance P s pos \<le> length s"
proof (induction P s pos rule: advance.induct)
  case (1 P s pos)
  show ?case
  proof (cases "pos < length s \<and> P (s ! pos)")
    case True
    with 1 have "advance P s (Suc pos) \<le> length s" by simp
    with True show ?thesis by (simp add: advance_true)
  next
    case False
    then have "advance P s pos = pos" by (intro advance_id) auto
    with 1 show ?thesis by simp
  qed
qed

lemma advance_stop: "advance P s pos < length s \<Longrightarrow> \<not> P (s ! advance P s pos)"
proof (induction P s pos rule: advance.induct)
  case (1 P s pos)
  show ?case
  proof (cases "pos < length s \<and> P (s ! pos)")
    case True
    then have eq: "advance P s pos = advance P s (Suc pos)" by (simp add: advance_true)
    with 1 True show ?thesis by simp
  next
    case False
    then have eq: "advance P s pos = pos" by (intro advance_id) auto
    with 1 False show ?thesis by simp
  qed
qed

lemma advance_step: "pos < length s \<Longrightarrow> P (s ! pos) \<Longrightarrow> pos < advance P s pos"
proof -
  assume a: "pos < length s" "P (s ! pos)"
  then have "advance P s pos = advance P s (Suc pos)" by (rule advance_true)
  moreover have "Suc pos \<le> advance P s (Suc pos)" by (rule advance_ge)
  ultimately show ?thesis by simp
qed

lemma advance_takeWhile: "advance P s pos = pos + length (takeWhile P (drop pos s))"
proof (induction P s pos rule: advance.induct)
  case (1 P s pos)
  show ?case
  proof (cases "pos < length s")
    case False
    then show ?thesis by (simp add: advance_id)
  next
    case lt: True
    then have d: "drop pos s = s ! pos # drop (Suc pos) s"
      by (simp add: Cons_nth_drop_Suc)
    show ?thesis
    proof (cases "P (s ! pos)")
      case True
      with lt have "advance P s pos = advance P s (Suc pos)" by (simp add: advance_true)
      with 1 lt True d show ?thesis by simp
    next
      case False
      with d show ?thesis by (simp add: advance_id)
    qed
  qed
qed

lemma findTokenEnd_ge: "pos \<le> findTokenEnd s pos"
  by (simp add: findTokenEnd_def advance_ge)

lemma findTokenEnd_le: "pos \<le> length s \<Longrightarrow> findTokenEnd s pos \<le> length s"
  by (simp add: findTokenEnd_def advance_le)

lemma getNextToken_snd_ge: "pos \<le> snd (getNextToken s pos)"
proof -
  have "pos \<le> advance isspace s pos" by (rule advance_ge)
  moreover have "advance isspace s pos \<le> findTokenEnd s (advance isspace s pos)"
    by (rule findTokenEnd_ge)
  ultimately show ?thesis by (simp add: getNextToken_def Let_def)
qed

lemma getNextToken_nonempty:
  assumes "fst (getNextToken s pos) \<noteq> []"
  shows "pos < snd (getNextToken s pos) \<and> snd (getNextToken s pos) \<le> length s"
proof -
  let ?p = "advance isspace s pos"
  from assms have lt: "?p < length s"
    by (auto simp: getNextToken_def Let_def split: if_splits)
  with assms have "take (findTokenEnd s ?p - ?p) (drop ?p s) \<noteq> []"
    by (simp add: getNextToken_def Let_def)
  then have "?p < findTokenEnd s ?p" by (cases "findTokenEnd s ?p - ?p") auto
  moreover have "pos \<le> ?p" by (rule advance_ge)
  moreover from lt have "findTokenEnd s ?p \<le> length s" by (simp add: findTokenEnd_le)
  moreover from lt have "snd (getNextToken s pos) = findTokenEnd s ?p"
    by (simp add: getNextToken_def Let_def)
  ultimately show ?thesis by simp
qed

text \<open>
  The token loop of \<^verbatim>\<open>showTokens\<close> (and of every consumer that reads a line token by
  token): tokens are produced until the empty token appears.
\<close>

function getTokens :: "string \<Rightarrow> nat \<Rightarrow> string list" where
  "getTokens s pos =
     (let token = fst (getNextToken s pos); pos' = snd (getNextToken s pos)
      in if token \<noteq> [] then token # getTokens s pos' else [])"
  by pat_completeness auto
termination
proof (relation "measure (\<lambda>(s, pos). length s - pos)")
  show "wf (measure (\<lambda>(s, pos). length s - pos))" by simp
next
  fix s pos token pos'
  assume "token = fst (getNextToken s pos)" "pos' = snd (getNextToken s pos)" "token \<noteq> []"
  then have "pos < pos' \<and> pos' \<le> length s" using getNextToken_nonempty [of s pos] by simp
  then show "((s, pos'), (s, pos)) \<in> measure (\<lambda>(s, pos). length s - pos)" by auto
qed

declare getTokens.simps [simp del]

text \<open>
  \<^verbatim>\<open>getLastToken\<close>: the loop \<^verbatim>\<open>while (nextToken != "")\<close> with its three variables.
\<close>

function getLastToken_loop :: "string \<Rightarrow> nat \<Rightarrow> string \<Rightarrow> string \<Rightarrow> string" where
  "getLastToken_loop s pos lastToken nextToken =
     (if nextToken \<noteq> [] then
        getLastToken_loop s (snd (getNextToken s pos)) nextToken (fst (getNextToken s pos))
      else lastToken)"
  by pat_completeness auto
termination
proof (relation "measure (\<lambda>(s, pos, lastToken, nextToken).
          2 * (length s - pos) + (if nextToken \<noteq> [] then 1 else 0))")
  show "wf (measure (\<lambda>(s, pos, lastToken, nextToken).
          2 * (length s - pos) + (if nextToken \<noteq> [] then 1 else 0)))" by simp
next
  fix s :: string and pos :: nat and lastToken nextToken :: string
  assume "nextToken \<noteq> []"
  moreover have "pos \<le> snd (getNextToken s pos)" by (rule getNextToken_snd_ge)
  moreover have "fst (getNextToken s pos) \<noteq> [] \<Longrightarrow>
      pos < snd (getNextToken s pos) \<and> snd (getNextToken s pos) \<le> length s"
    by (rule getNextToken_nonempty)
  ultimately show "((s, snd (getNextToken s pos), nextToken, fst (getNextToken s pos)),
           (s, pos, lastToken, nextToken))
          \<in> measure (\<lambda>(s, pos, lastToken, nextToken).
                2 * (length s - pos) + (if nextToken \<noteq> [] then 1 else 0))"
    by (cases "fst (getNextToken s pos) = []") auto
qed

declare getLastToken_loop.simps [simp del]

definition getLastToken :: "string \<Rightarrow> string" where
  "getLastToken s = getLastToken_loop s (snd (getNextToken s 0)) [] (fst (getNextToken s 0))"

text \<open>
  The same loop written without any appeal to termination: a run that never leaves the
  loop has the value \<open>None\<close>.
\<close>

partial_function (option) getLastToken_while ::
  "string \<Rightarrow> nat \<Rightarrow> string \<Rightarrow> string \<Rightarrow> string option" where
  "getLastToken_while s pos lastToken nextToken =
     (if nextToken \<noteq> [] then
        getLastToken_while s (snd (getNextToken s pos)) nextToken (fst (getNextToken s pos))
      else Some lastToken)"

definition getLastToken_run :: "string \<Rightarrow> string option" where
  "getLastToken_run s =
     getLastToken_while s (snd (getNextToken s 0)) [] (fst (getNextToken s 0))"

section \<open>Line helpers\<close>

text \<open>
  \<^verbatim>\<open>getFirstNonspacePos\<close>: the loop \<^verbatim>\<open>for (i = 0; i < length; i++)\<close> that returns the
  first index of a character that is no space, and \<open>-1\<close> when it runs off the end.
\<close>

function getFirstNonspacePos_loop :: "string \<Rightarrow> nat \<Rightarrow> int" where
  "getFirstNonspacePos_loop line i =
     (if i < length line then
        (if \<not> isspace (line ! i) then int i else getFirstNonspacePos_loop line (Suc i))
      else -1)"
  by pat_completeness auto
termination
  by (relation "measure (\<lambda>(line, i). length line - i)") auto

declare getFirstNonspacePos_loop.simps [simp del]

definition getFirstNonspacePos :: "string \<Rightarrow> int" where
  "getFirstNonspacePos line = getFirstNonspacePos_loop line 0"

text \<open>
  \<^verbatim>\<open>getLastNonspacePos\<close>: the loop \<^verbatim>\<open>for (i = length - 1; i >= 0; i--)\<close>. The argument
  of the recursion is \<open>i + 1\<close>, so that the loop ends at \<open>0\<close>.
\<close>

fun getLastNonspacePos_loop :: "string \<Rightarrow> nat \<Rightarrow> int" where
  "getLastNonspacePos_loop line 0 = -1"
| "getLastNonspacePos_loop line (Suc i) =
     (if \<not> isspace (line ! i) then int i else getLastNonspacePos_loop line i)"

definition getLastNonspacePos :: "string \<Rightarrow> int" where
  "getLastNonspacePos line = getLastNonspacePos_loop line (length line)"

definition isBlank :: "string \<Rightarrow> bool" where
  "isBlank line = (getFirstNonspacePos line = -1)"

definition isLineStartCloseBrace :: "string \<Rightarrow> bool" where
  "isLineStartCloseBrace line =
     (let firstPos = getFirstNonspacePos line
      in firstPos \<ge> 0 \<and> line ! nat firstPos = RIGHT_BRACE)"

definition LABELS :: "string list" where
  "LABELS = [''case'', ''default'', ''public'', ''private'', ''protected'']"

definition isLineLabel :: "string \<Rightarrow> bool" where
  "isLineLabel line = (let firstToken = getFirstToken line in firstToken \<in> set LABELS)"

definition isLineEndingSemicolon :: "string \<Rightarrow> bool" where
  "isLineEndingSemicolon line =
     (let lastPos = getLastNonspacePos line
      in lastPos \<noteq> -1 \<and> line ! nat lastPos = SEMICOLON)"

definition isClassKeyword :: "string \<Rightarrow> bool" where
  "isClassKeyword s = (s = ''class'' \<or> s = ''struct'')"

definition TYPES :: "string list" where
  "TYPES = [''int'', ''float'', ''double'', ''char'', ''bool'', ''string'', ''void'']"

definition isBasicType :: "string \<Rightarrow> bool" where
  "isBasicType s = (s \<in> set TYPES)"

definition isStartParen :: "string \<Rightarrow> bool" where
  "isStartParen s = (length s > 0 \<and> s ! 0 = CHR ''('')"

section \<open>The scanner state and its passes\<close>

datatype CommentTypes = NO_COMMENT | C_COMMENT | CPP_COMMENT

record StyleScanner =
  fileLines :: "string list"
  newTypes :: "string list"
  commentLines :: "CommentTypes list"
  scopeLevels :: "int list"

text \<open>\<^verbatim>\<open>vector::resize(n)\<close>: cut to \<open>n\<close> elements, or fill up with the default value.\<close>

definition resize :: "'a list \<Rightarrow> nat \<Rightarrow> 'a \<Rightarrow> 'a list" where
  "resize v n d = take n v @ replicate (n - length v) d"

text \<open>
  \<^verbatim>\<open>scanCommentLines\<close>. The loop state is the flag \<^verbatim>\<open>inCstyleComment\<close> and the vector
  \<^verbatim>\<open>commentLines\<close>; the body is one iteration at index \<open>i\<close>.
\<close>

definition scanCommentLines_body ::
  "string list \<Rightarrow> bool \<times> CommentTypes list \<Rightarrow> nat \<Rightarrow> bool \<times> CommentTypes list" where
  "scanCommentLines_body ls st i =
     (let inCstyleComment = fst st; cl = snd st;
          firstToken = getFirstToken (ls ! i);
          lastToken = getLastToken (ls ! i);
          inCstyleComment = (if stringStartsWith firstToken C_COMMENT_START then True
                             else inCstyleComment);
          cl = (if inCstyleComment then cl[i := C_COMMENT] else cl);
          inCstyleComment = (if stringEndsWith lastToken C_COMMENT_END then False
                             else inCstyleComment);
          cl = (if stringStartsWith firstToken DOUBLE_SLASH then cl[i := CPP_COMMENT] else cl)
      in (inCstyleComment, cl))"

definition scanCommentLines_loop :: "string list \<Rightarrow> CommentTypes list \<Rightarrow> nat \<Rightarrow> bool \<times> CommentTypes list" where
  "scanCommentLines_loop ls cl n = foldl (scanCommentLines_body ls) (False, cl) [0..<n]"

definition scanCommentLines :: "StyleScanner \<Rightarrow> StyleScanner" where
  "scanCommentLines st =
     (let n = length (fileLines st);
          cl = resize (commentLines st) n NO_COMMENT
      in st\<lparr>commentLines := snd (scanCommentLines_loop (fileLines st) cl n)\<rparr>)"

text \<open>
  \<^verbatim>\<open>isCommentLine\<close> asserts that the line number is in range; the passes below call it
  with loop indices only.
\<close>

definition isCommentLine :: "StyleScanner \<Rightarrow> nat \<Rightarrow> bool" where
  "isCommentLine st line = (commentLines st ! line \<noteq> NO_COMMENT)"

definition scanNewTypeDefs_body :: "StyleScanner \<Rightarrow> string list \<Rightarrow> nat \<Rightarrow> string list" where
  "scanNewTypeDefs_body st nt i =
     (if \<not> isCommentLine st i then
        (let line = fileLines st ! i;
             prefix = fst (getNextToken line 0);
             pos = snd (getNextToken line 0)
         in if isClassKeyword prefix then
              (let name = fst (getNextToken line pos) in nt @ [name])
            else nt)
      else nt)"

definition scanNewTypeDefs :: "StyleScanner \<Rightarrow> StyleScanner" where
  "scanNewTypeDefs st =
     st\<lparr>newTypes := foldl (scanNewTypeDefs_body st) (newTypes st) [0..<length (fileLines st)]\<rparr>"

definition isNewType :: "StyleScanner \<Rightarrow> string \<Rightarrow> bool" where
  "isNewType st s = (s \<in> set (newTypes st))"

definition isAnyType :: "StyleScanner \<Rightarrow> string \<Rightarrow> bool" where
  "isAnyType st s = (isBasicType s \<or> isNewType st s)"

text \<open>
  \<^verbatim>\<open>scanScopeLevels\<close>. The inner loop walks the characters of the line and moves the
  running counter at each brace. Depths are C++ \<^verbatim>\<open>int\<close>s; a file would need more than
  \<open>2^31\<close> braces to overflow one, and they are modelled as unbounded integers.
\<close>

definition countBraces :: "string \<Rightarrow> int \<Rightarrow> int" where
  "countBraces line scopeLevel =
     foldl (\<lambda>lvl c. if c = LEFT_BRACE then lvl + 1
                    else if c = RIGHT_BRACE then lvl - 1
                    else lvl) scopeLevel line"

definition scanScopeLevels_body ::
  "string list \<Rightarrow> CommentTypes list \<Rightarrow> int \<times> int list \<Rightarrow> nat \<Rightarrow> int \<times> int list" where
  "scanScopeLevels_body ls cl st i =
     (let scopeLevel = fst st; sl = snd st;
          sl = sl[i := scopeLevel]
      in if cl ! i = NO_COMMENT then
           (let line = ls ! i;
                scopeLevel = countBraces line scopeLevel;
                sl = (if isLineStartCloseBrace line then sl[i := sl ! i - 1] else sl)
            in (scopeLevel, sl))
         else (scopeLevel, sl))"

definition scanScopeLevels_loop ::
  "string list \<Rightarrow> CommentTypes list \<Rightarrow> int list \<Rightarrow> nat \<Rightarrow> int \<times> int list" where
  "scanScopeLevels_loop ls cl sl n = foldl (scanScopeLevels_body ls cl) (0, sl) [0..<n]"

definition scanScopeLevels :: "StyleScanner \<Rightarrow> StyleScanner" where
  "scanScopeLevels st =
     (let n = length (fileLines st);
          sl = resize (scopeLevels st) n 0
      in st\<lparr>scopeLevels := snd (scanScopeLevels_loop (fileLines st) (commentLines st) sl n)\<rparr>)"

text \<open>\<^verbatim>\<open>scanScopeLabels\<close>: the loop state is \<^verbatim>\<open>labelLevel\<close> and the vector of depths.\<close>

definition scanScopeLabels_body ::
  "string list \<Rightarrow> CommentTypes list \<Rightarrow> int \<times> int list \<Rightarrow> nat \<Rightarrow> int \<times> int list" where
  "scanScopeLabels_body ls cl st i =
     (let labelLevel = fst st; sl = snd st;
          thisLineLabel = (cl ! i = NO_COMMENT \<and> isLineLabel (ls ! i))
      in if labelLevel = 0 then
           (if thisLineLabel then (sl ! i, sl) else (labelLevel, sl))
         else
           (if sl ! i < labelLevel then (0, sl)
            else if \<not> thisLineLabel then (labelLevel, sl[i := sl ! i + 1])
            else (labelLevel, sl)))"

definition scanScopeLabels_loop ::
  "string list \<Rightarrow> CommentTypes list \<Rightarrow> int list \<Rightarrow> nat \<Rightarrow> int \<times> int list" where
  "scanScopeLabels_loop ls cl sl n = foldl (scanScopeLabels_body ls cl) (0, sl) [0..<n]"

definition scanScopeLabels :: "StyleScanner \<Rightarrow> StyleScanner" where
  "scanScopeLabels st =
     st\<lparr>scopeLevels := snd (scanScopeLabels_loop (fileLines st) (commentLines st)
                               (scopeLevels st) (length (fileLines st)))\<rparr>"

text \<open>A scanner that has just read the lines \<open>ls\<close>, before any pass.\<close>

definition newScanner :: "string list \<Rightarrow> StyleScanner" where
  "newScanner ls = \<lparr>fileLines = ls, newTypes = [], commentLines = [], scopeLevels = []\<rparr>"

text \<open>
  The post-processing of \<^verbatim>\<open>readFile\<close>: the four passes in their order, on a
  scanner that has just read the lines.
\<close>

definition readFile :: "string list \<Rightarrow> StyleScanner" where
  "readFile ls =
     scanScopeLabels (scanScopeLevels (scanNewTypeDefs (scanCommentLines (newScanner ls))))"

text \<open>
  The three decisions of one iteration of \<^verbatim>\<open>scanCommentLines\<close>, read off its body: the
  tag the line ends up with, given the flag at the start of the iteration and the tag the
  vector held; and the flag at the end of the iteration.
\<close>

definition commentTag :: "bool \<Rightarrow> CommentTypes \<Rightarrow> string \<Rightarrow> CommentTypes" where
  "commentTag inC old line =
     (if stringStartsWith (getFirstToken line) DOUBLE_SLASH then CPP_COMMENT
      else if stringStartsWith (getFirstToken line) C_COMMENT_START \<or> inC then C_COMMENT
      else old)"

definition commentNext :: "bool \<Rightarrow> string \<Rightarrow> bool" where
  "commentNext inC line =
     (if stringEndsWith (getLastToken line) C_COMMENT_END then False
      else stringStartsWith (getFirstToken line) C_COMMENT_START \<or> inC)"

text \<open>
  The flag \<^verbatim>\<open>inCstyleComment\<close> at the start of iteration \<open>i\<close> of \<^verbatim>\<open>scanCommentLines\<close>,
  that is, after the first \<open>i\<close> lines; at \<open>i = length ls\<close> it is the flag the pass ends with.
\<close>

definition commentStateBefore :: "string list \<Rightarrow> nat \<Rightarrow> bool" where
  "commentStateBefore ls i =
     fst (scanCommentLines_loop ls (resize [] (length ls) NO_COMMENT) i)"

section \<open>Derived predicates\<close>

text \<open>
  \<^verbatim>\<open>mayBeRunOnLine\<close> indexes the three vectors at \<open>line\<close> and \<open>line - 1\<close>; the line
  number has to be in range.
\<close>

definition mayBeRunOnLine :: "StyleScanner \<Rightarrow> nat \<Rightarrow> bool" where
  "mayBeRunOnLine st line =
     (if line > 0 \<and> scopeLevels st ! line = scopeLevels st ! (line - 1)
         \<and> commentLines st ! (line - 1) = NO_COMMENT
         \<and> \<not> isBlank (fileLines st ! (line - 1)) then
        (let priorLine = fileLines st ! (line - 1);
             lastPriorChar = getLastNonspacePos priorLine
         in if priorLine ! nat lastPriorChar \<noteq> SEMICOLON then True else False)
      else False)"

text \<open>
  The loop \<^verbatim>\<open>while (name == "*") name = getNextToken(s, pos)\<close> of
  \<^verbatim>\<open>isFunctionHeader\<close>; it returns the name and the position reached.
\<close>

function skipStars :: "string \<Rightarrow> string \<Rightarrow> nat \<Rightarrow> string \<times> nat" where
  "skipStars s name pos =
     (if name = ''*'' then skipStars s (fst (getNextToken s pos)) (snd (getNextToken s pos))
      else (name, pos))"
  by pat_completeness auto
termination
proof (relation "measure (\<lambda>(s, name, pos).
          2 * (length s - pos) + (if name = ''*'' then 1 else 0))")
  show "wf (measure (\<lambda>(s, name, pos).
          2 * (length s - pos) + (if name = ''*'' then 1 else 0)))" by simp
next
  fix s name :: string and pos :: nat
  assume "name = ''*''"
  moreover have "pos \<le> snd (getNextToken s pos)" by (rule getNextToken_snd_ge)
  moreover have "fst (getNextToken s pos) \<noteq> [] \<Longrightarrow>
      pos < snd (getNextToken s pos) \<and> snd (getNextToken s pos) \<le> length s"
    by (rule getNextToken_nonempty)
  ultimately show "((s, fst (getNextToken s pos), snd (getNextToken s pos)), (s, name, pos))
          \<in> measure (\<lambda>(s, name, pos).
                2 * (length s - pos) + (if name = ''*'' then 1 else 0))"
    by (cases "fst (getNextToken s pos) = ''*''") (auto simp: case_prod_beta)
qed

declare skipStars.simps [simp del]

text \<open>
  \<^verbatim>\<open>isFunctionHeader(s, name)\<close> returns its verdict and, through the reference
  parameter, the function name; \<open>name0\<close> is the value the parameter holds at the call.
\<close>

definition isFunctionHeader_name :: "string \<Rightarrow> string \<Rightarrow> bool \<times> string" where
  "isFunctionHeader_name s name0 =
     (let type = fst (getNextToken s 0); pos = snd (getNextToken s 0)
      in if isBasicType type \<and> \<not> isLineEndingSemicolon s then
           (let name = fst (getNextToken s pos); pos = snd (getNextToken s pos);
                r = skipStars s name pos; name = fst r; pos = snd r;
                nextSymbol = fst (getNextToken s pos); pos = snd (getNextToken s pos)
            in if nextSymbol = ''::'' then
                 (let name = fst (getNextToken s pos); pos = snd (getNextToken s pos);
                      nextSymbol = fst (getNextToken s pos)
                  in if isStartParen nextSymbol then (True, name) else (False, name))
               else if isStartParen nextSymbol then (True, name) else (False, name))
         else (False, name0))"

definition isFunctionHeader :: "string \<Rightarrow> bool" where
  "isFunctionHeader s = fst (isFunctionHeader_name s [])"

section \<open>Loop states and specification-side notions\<close>

text \<open>The scanner after the comment, type and brace passes, before the label pass.\<close>

definition afterBraces :: "string list \<Rightarrow> StyleScanner" where
  "afterBraces ls = scanScopeLevels (scanNewTypeDefs (scanCommentLines (newScanner ls)))"

text \<open>
  One iteration of \<^verbatim>\<open>scanScopeLevels\<close>, read off its body: the depth recorded for the
  line and the running counter after it, from the counter at the start of the iteration.
\<close>

definition scopeRecorded :: "int \<Rightarrow> CommentTypes \<Rightarrow> string \<Rightarrow> int" where
  "scopeRecorded scopeLevel tag line =
     (if tag = NO_COMMENT \<and> isLineStartCloseBrace line then scopeLevel - 1 else scopeLevel)"

definition scopeNext :: "int \<Rightarrow> CommentTypes \<Rightarrow> string \<Rightarrow> int" where
  "scopeNext scopeLevel tag line =
     (if tag = NO_COMMENT then countBraces line scopeLevel else scopeLevel)"

text \<open>
  The running counter \<^verbatim>\<open>scopeLevel\<close> at the start of iteration \<open>i\<close> of
  \<^verbatim>\<open>scanScopeLevels\<close>, as \<^verbatim>\<open>readFile\<close> runs it.
\<close>

definition scopeLevelBefore :: "string list \<Rightarrow> nat \<Rightarrow> int" where
  "scopeLevelBefore ls i =
     fst (scanScopeLevels_loop ls (commentLines (scanCommentLines (newScanner ls)))
            (resize [] (length ls) 0) i)"

text \<open>The net brace balance of a line: its opening braces minus its closing braces.\<close>

definition netBraces :: "string \<Rightarrow> int" where
  "netBraces line =
     int (length (filter (\<lambda>c. c = LEFT_BRACE) line))
       - int (length (filter (\<lambda>c. c = RIGHT_BRACE) line))"

text \<open>
  One iteration of \<^verbatim>\<open>scanScopeLabels\<close>, read off its body: the depth the line ends up
  with and the next \<^verbatim>\<open>labelLevel\<close>, from the current \<^verbatim>\<open>labelLevel\<close>, the depth \<open>d\<close> of
  the line and whether the line is a label line.
\<close>

definition labelAdjusted :: "int \<Rightarrow> int \<Rightarrow> bool \<Rightarrow> int" where
  "labelAdjusted labelLevel d thisLineLabel =
     (if labelLevel = 0 then d
      else if d < labelLevel then d
      else if \<not> thisLineLabel then d + 1
      else d)"

definition labelNext :: "int \<Rightarrow> int \<Rightarrow> bool \<Rightarrow> int" where
  "labelNext labelLevel d thisLineLabel =
     (if labelLevel = 0 then (if thisLineLabel then d else labelLevel)
      else if d < labelLevel then 0
      else labelLevel)"

text \<open>\<^verbatim>\<open>thisLineLabel\<close> of \<^verbatim>\<open>scanScopeLabels\<close> at line \<open>j\<close> of the file.\<close>

definition thisLineLabel :: "string list \<Rightarrow> nat \<Rightarrow> bool" where
  "thisLineLabel ls j = (commentLines (readFile ls) ! j = NO_COMMENT \<and> isLineLabel (ls ! j))"

text \<open>\<^verbatim>\<open>labelLevel\<close> at the start of iteration \<open>i\<close> of \<^verbatim>\<open>scanScopeLabels\<close>.\<close>

definition labelLevelBefore :: "string list \<Rightarrow> nat \<Rightarrow> int" where
  "labelLevelBefore ls i =
     fst (scanScopeLabels_loop ls (commentLines (afterBraces ls)) (scopeLevels (afterBraces ls)) i)"

text \<open>
  The shape of a function header over the token list of the line, for a given test
  \<open>isType\<close> of type names: the first token is a type name, the line does not end in a
  semicolon, and the tokens after the type, once the leading \<^verbatim>\<open>*\<close> tokens are skipped, are
  a name and a token that opens a parenthesis, or a name, \<^verbatim>\<open>::\<close>, a name and a token that
  opens a parenthesis. \<open>tokenAt ts i\<close> is the \<open>i\<close>-th token, empty past the end.
\<close>

definition tokenAt :: "string list \<Rightarrow> nat \<Rightarrow> string" where
  "tokenAt ts i = (if i < length ts then ts ! i else [])"

definition headerShape :: "(string \<Rightarrow> bool) \<Rightarrow> string \<Rightarrow> bool" where
  "headerShape isType s =
     (let ts = getTokens s 0;
          rest = dropWhile (\<lambda>t. t = ''*'') (tl ts)
      in isType (tokenAt ts 0) \<and> \<not> isLineEndingSemicolon s
         \<and> (if tokenAt rest 1 = ''::'' then isStartParen (tokenAt rest 3)
            else isStartParen (tokenAt rest 1)))"

text \<open>
  The characters the tokenizer can classify: white space, and the three token classes.
\<close>

definition tokenChar :: "char \<Rightarrow> bool" where
  "tokenChar c = (isspace c \<or> isalpha c \<or> c = CHR ''_'' \<or> isdigit c \<or> ispunct c)"

section \<open>Facts about the token loops\<close>

lemma getLastToken_while_total:
  "getLastToken_while s pos lastToken nextToken = Some (getLastToken_loop s pos lastToken nextToken)"
proof (induction s pos lastToken nextToken rule: getLastToken_loop.induct)
  case (1 s pos lastToken nextToken)
  show ?case
  proof (cases "nextToken = []")
    case True
    then show ?thesis
      by (simp add: getLastToken_while.simps [of s pos] getLastToken_loop.simps [of s pos])
  next
    case False
    with 1 show ?thesis
      by (simp add: getLastToken_while.simps [of s pos] getLastToken_loop.simps [of s pos])
  qed
qed

lemma getNextToken_stuck:
  assumes "pos < length s" "\<not> isspace (s ! pos)" "\<not> isalpha (s ! pos)" "s ! pos \<noteq> CHR ''_''"
    "\<not> isdigit (s ! pos)" "\<not> ispunct (s ! pos)"
  shows "getNextToken s pos = ([], pos)"
proof -
  from assms have "advance isspace s pos = pos" by (simp add: advance_id)
  moreover from assms have "findTokenEnd s pos = pos" by (simp add: findTokenEnd_def)
  ultimately show ?thesis using assms by (simp add: getNextToken_def Let_def)
qed

lemma getTokens_empty: "fst (getNextToken s pos) = [] \<Longrightarrow> getTokens s pos = []"
  by (subst getTokens.simps) (simp add: Let_def)

lemma getTokens_Cons:
  "fst (getNextToken s pos) \<noteq> [] \<Longrightarrow>
   getTokens s pos = fst (getNextToken s pos) # getTokens s (snd (getNextToken s pos))"
  by (subst getTokens.simps) (simp add: Let_def)

lemma isspace_disjoint:
  assumes "isspace c"
  shows "\<not> isalpha c \<and> \<not> isdigit c \<and> \<not> ispunct c \<and> c \<noteq> CHR ''_'' \<and> c \<noteq> CHR ''.''"
proof -
  define n where "n = (of_char c :: int)"
  from assms have sp: "n = 32 \<or> (9 \<le> n \<and> n \<le> 13)"
    by (simp add: isspace_def Let_def n_def)
  have "\<not> ((65 \<le> n \<and> n \<le> 90) \<or> (97 \<le> n \<and> n \<le> 122))" using sp by arith
  then have a: "\<not> isalpha c" by (simp add: isalpha_def Let_def n_def)
  have "\<not> (48 \<le> n \<and> n \<le> 57)" using sp by arith
  then have d: "\<not> isdigit c" by (simp add: isdigit_def Let_def n_def)
  have "\<not> ((33 \<le> n \<and> n \<le> 47) \<or> (58 \<le> n \<and> n \<le> 64) \<or> (91 \<le> n \<and> n \<le> 96)
      \<or> (123 \<le> n \<and> n \<le> 126))" using sp by arith
  then have p: "\<not> ispunct c" by (simp add: ispunct_def Let_def n_def)
  have "n \<noteq> 95" "n \<noteq> 46" using sp by arith+
  then have "c \<noteq> CHR ''_''" "c \<noteq> CHR ''.''" by (auto simp: n_def)
  with a d p show ?thesis by simp
qed

lemma dot_punct: "ispunct (CHR ''.'')"
  by (simp add: ispunct_def)

lemma class_word: "isalnum c \<or> c = CHR ''_'' \<Longrightarrow> tokenChar c \<and> \<not> isspace c"
  using isspace_disjoint [of c] by (auto simp: tokenChar_def isalnum_def)

lemma class_number: "isdigit c \<or> c = CHR ''.'' \<Longrightarrow> tokenChar c \<and> \<not> isspace c"
  using isspace_disjoint [of c] dot_punct by (auto simp: tokenChar_def)

lemma class_punct: "ispunct c \<Longrightarrow> tokenChar c \<and> \<not> isspace c"
  using isspace_disjoint [of c] by (auto simp: tokenChar_def)

lemma findTokenEnd_cases:
  "(\<not> (isalpha (s ! p) \<or> s ! p = CHR ''_'' \<or> isdigit (s ! p) \<or> ispunct (s ! p))
      \<and> findTokenEnd s p = p)
   \<or> (\<exists>Q. (\<forall>c. Q c \<longrightarrow> tokenChar c \<and> \<not> isspace c) \<and> Q (s ! p)
         \<and> findTokenEnd s p = advance Q s p)"
proof (cases "isalpha (s ! p) \<or> s ! p = CHR ''_''")
  case True
  let ?Q = "\<lambda>c. isalnum c \<or> c = CHR ''_''"
  from True have "findTokenEnd s p = advance ?Q s p"
    by (simp add: findTokenEnd_def)
  moreover from True have "?Q (s ! p)" by (auto simp: isalnum_def)
  moreover have "\<forall>c. ?Q c \<longrightarrow> tokenChar c \<and> \<not> isspace c"
    using class_word by (intro allI impI)
  ultimately have "\<exists>Q. (\<forall>c. Q c \<longrightarrow> tokenChar c \<and> \<not> isspace c) \<and> Q (s ! p)
         \<and> findTokenEnd s p = advance Q s p"
    by (intro exI [of _ ?Q] conjI)
  then show ?thesis by (rule disjI2)
next
  case nw: False
  show ?thesis
  proof (cases "isdigit (s ! p)")
    case True
    let ?Q = "\<lambda>c. isdigit c \<or> c = CHR ''.''"
    from nw True have "findTokenEnd s p = advance ?Q s p"
      by (simp add: findTokenEnd_def)
    moreover from True have "?Q (s ! p)" by simp
    moreover have "\<forall>c. ?Q c \<longrightarrow> tokenChar c \<and> \<not> isspace c"
      using class_number by (intro allI impI)
    ultimately have "\<exists>Q. (\<forall>c. Q c \<longrightarrow> tokenChar c \<and> \<not> isspace c) \<and> Q (s ! p)
         \<and> findTokenEnd s p = advance Q s p"
      by (intro exI [of _ ?Q] conjI)
    then show ?thesis by (rule disjI2)
  next
    case nd: False
    show ?thesis
    proof (cases "ispunct (s ! p)")
      case True
      from nw nd True have "findTokenEnd s p = advance ispunct s p"
        by (simp add: findTokenEnd_def)
      moreover have "\<forall>c. ispunct c \<longrightarrow> tokenChar c \<and> \<not> isspace c"
        using class_punct by (intro allI impI)
      ultimately have "\<exists>Q. (\<forall>c. Q c \<longrightarrow> tokenChar c \<and> \<not> isspace c) \<and> Q (s ! p)
         \<and> findTokenEnd s p = advance Q s p"
        using True by (intro exI [of _ ispunct] conjI)
      then show ?thesis by (rule disjI2)
    next
      case False
      with nw nd have "findTokenEnd s p = p" by (simp add: findTokenEnd_def)
      with nw nd False show ?thesis by simp
    qed
  qed
qed

lemma takeWhile_all: "\<forall>x\<in>set xs. P x \<Longrightarrow> takeWhile P (xs @ ys) = xs @ takeWhile P ys"
  by (induction xs) auto

lemma drop_split_takeWhile:
  "drop pos s = takeWhile P (drop pos s) @ drop (pos + length (takeWhile P (drop pos s))) s"
proof -
  have "drop pos s = takeWhile P (drop pos s) @ dropWhile P (drop pos s)" by simp
  also have "dropWhile P (drop pos s) = drop (length (takeWhile P (drop pos s))) (drop pos s)"
    by (rule dropWhile_eq_drop)
  also have "\<dots> = drop (pos + length (takeWhile P (drop pos s))) s"
    by (simp add: add.commute)
  finally show ?thesis .
qed

lemma filter_nonspace_spaces: "\<forall>c\<in>set sp. isspace c \<Longrightarrow> filter (\<lambda>c. \<not> isspace c) sp = []"
  by (induction sp) auto

lemma concat_getTokens:
  "concat (getTokens s pos) = filter (\<lambda>c. \<not> isspace c) (takeWhile tokenChar (drop pos s))"
proof (induction s pos rule: getTokens.induct)
  case (1 s pos)
  define sp where "sp = takeWhile isspace (drop pos s)"
  define p where "p = advance isspace s pos"
  have p_eq: "p = pos + length sp" by (simp add: p_def sp_def advance_takeWhile)
  have sp_space: "\<forall>c\<in>set sp. isspace c" by (auto simp: sp_def dest: set_takeWhileD)
  then have sp_tok: "\<forall>c\<in>set sp. tokenChar c" by (simp add: tokenChar_def)
  have split1: "drop pos s = sp @ drop p s"
    unfolding p_eq sp_def by (rule drop_split_takeWhile)
  have filt_sp: "filter (\<lambda>c. \<not> isspace c) sp = []"
    using sp_space by (rule filter_nonspace_spaces)
  show ?case
  proof (cases "p \<ge> length s")
    case True
    then have "getNextToken s pos = ([], p)" by (simp add: getNextToken_def p_def)
    then have "getTokens s pos = []" by (simp add: getTokens_empty)
    moreover from True split1 have "drop pos s = sp" by simp
    moreover have "takeWhile tokenChar sp = sp" using sp_tok by (simp add: takeWhile_eq_all_conv)
    ultimately show ?thesis using filt_sp by (simp only: concat.simps)
  next
    case False
    then have lt: "p < length s" by simp
    have nsp: "\<not> isspace (s ! p)" using advance_stop [of isspace s pos] lt by (simp add: p_def)
    have gnt: "getNextToken s pos = (take (findTokenEnd s p - p) (drop p s), findTokenEnd s p)"
      using lt by (simp add: getNextToken_def p_def Let_def)
    have dp: "drop p s = s ! p # drop (Suc p) s" using lt by (simp add: Cons_nth_drop_Suc)
    from findTokenEnd_cases [of s p] show ?thesis
    proof (elim disjE conjE exE)
      assume stuck: "\<not> (isalpha (s ! p) \<or> s ! p = CHR ''_'' \<or> isdigit (s ! p) \<or> ispunct (s ! p))"
        and e: "findTokenEnd s p = p"
      from gnt e have "getTokens s pos = []" by (simp add: getTokens_empty)
      moreover from stuck nsp have "\<not> tokenChar (s ! p)" by (simp add: tokenChar_def)
      then have "takeWhile tokenChar (sp @ drop p s) = sp"
        using takeWhile_all [OF sp_tok, of "drop p s"] by (simp add: dp)
      ultimately show ?thesis using filt_sp split1 by simp
    next
      fix Q
      assume Q: "\<forall>c. Q c \<longrightarrow> tokenChar c \<and> \<not> isspace c" and Qp: "Q (s ! p)"
        and e: "findTokenEnd s p = advance Q s p"
      define tok where "tok = takeWhile Q (drop p s)"
      define e' where "e' = findTokenEnd s p"
      have e_eq: "e' = p + length tok" by (simp add: e'_def e tok_def advance_takeWhile)
      have tokQ: "\<forall>c\<in>set tok. Q c" by (auto simp: tok_def dest: set_takeWhileD)
      have tok_ne: "tok \<noteq> []" using Qp by (simp add: tok_def dp)
      have split2: "drop p s = tok @ drop e' s"
        unfolding e_eq tok_def by (rule drop_split_takeWhile)
      have "take (e' - p) (drop p s) = take (length (takeWhile Q (drop p s))) (drop p s)"
        by (simp add: e_eq tok_def)
      also have "\<dots> = tok" unfolding tok_def by (rule takeWhile_eq_take [symmetric])
      finally have tk: "take (e' - p) (drop p s) = tok" .
      from gnt tk tok_ne have fs: "fst (getNextToken s pos) = tok" "snd (getNextToken s pos) = e'"
        by (simp_all add: e'_def)
      from fs tok_ne have gt: "getTokens s pos = tok # getTokens s e'"
        using getTokens_Cons [of s pos] by simp
      from fs tok_ne have IH: "concat (getTokens s e') =
          filter (\<lambda>c. \<not> isspace c) (takeWhile tokenChar (drop e' s))"
        using "1.IH" [of "fst (getNextToken s pos)" "snd (getNextToken s pos)"] by simp
      have tok_tok: "\<forall>c\<in>set tok. tokenChar c" using tokQ Q by blast
      have tok_nsp: "\<forall>c\<in>set tok. \<not> isspace c" using tokQ Q by blast
      have filt_tok: "filter (\<lambda>c. \<not> isspace c) tok = tok"
        using tok_nsp by (simp add: filter_id_conv)
      have "takeWhile tokenChar (drop pos s) = takeWhile tokenChar (sp @ tok @ drop e' s)"
        using split1 split2 by simp
      also have "\<dots> = sp @ takeWhile tokenChar (tok @ drop e' s)"
        using sp_tok by (rule takeWhile_all)
      also have "takeWhile tokenChar (tok @ drop e' s) = tok @ takeWhile tokenChar (drop e' s)"
        using tok_tok by (rule takeWhile_all)
      finally show ?thesis using gt IH filt_sp filt_tok by simp
    qed
  qed
qed


section \<open>Facts about the passes\<close>

text \<open>
  Each pass is a loop over the line numbers whose body writes the vector at the current
  index only. For such a loop the final entry at \<open>i\<close> is the one written by iteration
  \<open>i\<close>, from the loop state after \<open>i\<close> iterations.
\<close>

lemma upt_fold_length:
  assumes upd: "\<And>st j. snd (f st j) = (snd st)[j := v st j]"
  shows "length (snd (foldl f st0 [0..<k])) = length (snd st0)"
  by (induction k) (simp_all add: upd)

lemma upt_fold_beyond:
  assumes upd: "\<And>st j. snd (f st j) = (snd st)[j := v st j]"
  shows "k \<le> i \<Longrightarrow> snd (foldl f st0 [0..<k]) ! i = snd st0 ! i"
  by (induction k) (simp_all add: upd)

lemma upt_fold_nth:
  assumes upd: "\<And>st j. snd (f st j) = (snd st)[j := v st j]"
  shows "i < k \<Longrightarrow> i < length (snd st0) \<Longrightarrow>
         snd (foldl f st0 [0..<k]) ! i = v (foldl f st0 [0..<i]) i"
proof (induction k)
  case 0
  then show ?case by simp
next
  case (Suc k)
  have len: "length (snd (foldl f st0 [0..<k])) = length (snd st0)"
    using upd by (rule upt_fold_length)
  show ?case
  proof (cases "i = k")
    case True
    with Suc.prems len show ?thesis by (simp add: upd)
  next
    case False
    with Suc.prems have "i < k" by simp
    with Suc False show ?thesis by (simp add: upd)
  qed
qed

lemma scanCommentLines_body_snd:
  "snd (scanCommentLines_body ls st j) = (snd st)[j := commentTag (fst st) (snd st ! j) (ls ! j)]"
  by (simp add: scanCommentLines_body_def commentTag_def Let_def)

lemma scanCommentLines_body_fst:
  "fst (scanCommentLines_body ls st j) = commentNext (fst st) (ls ! j)"
  by (simp add: scanCommentLines_body_def commentNext_def Let_def)


lemma readFile_fileLines: "fileLines (readFile ls) = ls"
  by (simp add: readFile_def scanScopeLabels_def scanScopeLevels_def scanNewTypeDefs_def
      scanCommentLines_def newScanner_def Let_def)

lemma readFile_commentLines:
  "commentLines (readFile ls) =
     snd (scanCommentLines_loop ls (resize [] (length ls) NO_COMMENT) (length ls))"
  by (simp add: readFile_def scanScopeLabels_def scanScopeLevels_def scanNewTypeDefs_def
      scanCommentLines_def newScanner_def Let_def)

lemma commentStateBefore_Suc:
  "commentStateBefore ls (Suc i) = commentNext (commentStateBefore ls i) (ls ! i)"
  by (simp add: commentStateBefore_def scanCommentLines_loop_def scanCommentLines_body_fst)

lemma commentLines_nth:
  assumes "i < length ls"
  shows "commentLines (readFile ls) ! i = commentTag (commentStateBefore ls i) NO_COMMENT (ls ! i)"
proof -
  let ?cl = "resize [] (length ls) NO_COMMENT"
  let ?f = "scanCommentLines_body ls"
  have len: "length ?cl = length ls" by (simp add: resize_def)
  have upd: "\<And>st j. snd (?f st j) = (snd st)[j := commentTag (fst st) (snd st ! j) (ls ! j)]"
    by (rule scanCommentLines_body_snd)
  have "snd (foldl ?f (False, ?cl) [0..<length ls]) ! i =
      commentTag (fst (foldl ?f (False, ?cl) [0..<i])) (snd (foldl ?f (False, ?cl) [0..<i]) ! i) (ls ! i)"
    using upt_fold_nth [of ?f "\<lambda>st j. commentTag (fst st) (snd st ! j) (ls ! j)" i "length ls" "(False, ?cl)"]
      upd assms len by simp
  moreover have "snd (foldl ?f (False, ?cl) [0..<i]) ! i = ?cl ! i"
    using upt_fold_beyond [of ?f "\<lambda>st j. commentTag (fst st) (snd st ! j) (ls ! j)" i i "(False, ?cl)"]
      upd by simp
  moreover have "?cl ! i = NO_COMMENT" using assms by (simp add: resize_def)
  ultimately show ?thesis
    by (simp add: readFile_commentLines scanCommentLines_loop_def commentStateBefore_def)
qed

lemma commentStateBefore_stays:
  assumes "k < length ls" "stringStartsWith (getFirstToken (ls ! k)) C_COMMENT_START"
    and nc: "\<forall>j. k \<le> j \<and> j < length ls \<longrightarrow> \<not> stringEndsWith (getLastToken (ls ! j)) C_COMMENT_END"
  shows "k < j \<Longrightarrow> j \<le> length ls \<Longrightarrow> commentStateBefore ls j"
proof (induction j)
  case 0
  then show ?case by simp
next
  case (Suc j)
  show ?case
  proof (cases "j = k")
    case True
    with assms show ?thesis by (simp add: commentStateBefore_Suc commentNext_def)
  next
    case False
    with Suc have "commentStateBefore ls j" "k \<le> j" "j < length ls" by simp_all
    with nc show ?thesis by (simp add: commentStateBefore_Suc commentNext_def)
  qed
qed

lemma scanCommentLines_fileLines: "fileLines (scanCommentLines (newScanner ls)) = ls"
  by (simp add: scanCommentLines_def newScanner_def Let_def)

lemma scanCommentLines_commentLines:
  "commentLines (scanCommentLines (newScanner ls)) = commentLines (readFile ls)"
  by (simp add: readFile_def scanScopeLabels_def scanScopeLevels_def scanNewTypeDefs_def Let_def)

lemma readFile_newTypes:
  "newTypes (readFile ls) =
     foldl (scanNewTypeDefs_body (scanCommentLines (newScanner ls))) [] [0..<length ls]"
  by (simp add: readFile_def scanScopeLabels_def scanScopeLevels_def scanNewTypeDefs_def
      scanCommentLines_def newScanner_def Let_def)

lemma scanNewTypeDefs_body_mono: "set nt \<subseteq> set (scanNewTypeDefs_body st nt i)"
  by (auto simp: scanNewTypeDefs_body_def Let_def)

lemma scanNewTypeDefs_fold_mono: "set nt \<subseteq> set (foldl (scanNewTypeDefs_body st) nt xs)"
proof (induction xs arbitrary: nt)
  case Nil
  then show ?case by simp
next
  case (Cons x xs)
  have "set nt \<subseteq> set (scanNewTypeDefs_body st nt x)" by (rule scanNewTypeDefs_body_mono)
  also have "\<dots> \<subseteq> set (foldl (scanNewTypeDefs_body st) (scanNewTypeDefs_body st nt x) xs)"
    by (rule Cons.IH)
  finally show ?case by simp
qed

lemma scanNewTypeDefs_fold_adds:
  assumes "i \<in> set xs" and "\<And>nt. name \<in> set (scanNewTypeDefs_body st nt i)"
  shows "name \<in> set (foldl (scanNewTypeDefs_body st) nt xs)"
  using assms(1)
proof (induction xs arbitrary: nt)
  case Nil
  then show ?case by simp
next
  case (Cons x xs)
  show ?case
  proof (cases "x = i")
    case True
    have "name \<in> set (scanNewTypeDefs_body st nt i)" by (rule assms(2))
    then show ?thesis
      using scanNewTypeDefs_fold_mono [of "scanNewTypeDefs_body st nt i" st xs] True by auto
  next
    case False
    with Cons.prems have "i \<in> set xs" by simp
    then show ?thesis using Cons.IH by simp
  qed
qed

lemma getFirstNonspacePos_loop_blank:
  "(getFirstNonspacePos_loop line i = -1) = (\<forall>c\<in>set (drop i line). isspace c)"
proof (induction line i rule: getFirstNonspacePos_loop.induct)
  case (1 line i)
  show ?case
  proof (cases "i < length line")
    case False
    then show ?thesis by (simp add: getFirstNonspacePos_loop.simps [of line i])
  next
    case True
    then have d: "drop i line = line ! i # drop (Suc i) line" by (simp add: Cons_nth_drop_Suc)
    show ?thesis
    proof (cases "isspace (line ! i)")
      case sp: True
      with True 1 d show ?thesis by (simp add: getFirstNonspacePos_loop.simps [of line i])
    next
      case False
      with True d show ?thesis by (simp add: getFirstNonspacePos_loop.simps [of line i])
    qed
  qed
qed

lemma isBlank_iff: "isBlank line = (\<forall>c\<in>set line. isspace c)"
  by (simp add: isBlank_def getFirstNonspacePos_def getFirstNonspacePos_loop_blank)

lemma getLastNonspacePos_loop_last:
  assumes "n \<le> length line" "\<exists>c\<in>set (take n line). \<not> isspace c"
  shows "0 \<le> getLastNonspacePos_loop line n
     \<and> line ! nat (getLastNonspacePos_loop line n) = last (filter (\<lambda>c. \<not> isspace c) (take n line))"
  using assms
proof (induction n)
  case 0
  then show ?case by simp
next
  case (Suc n)
  then have t: "take (Suc n) line = take n line @ [line ! n]" by (simp add: take_Suc_conv_app_nth)
  show ?case
  proof (cases "isspace (line ! n)")
    case False
    with t show ?thesis by simp
  next
    case True
    with Suc.prems t have "\<exists>c\<in>set (take n line). \<not> isspace c" by auto
    with Suc have "0 \<le> getLastNonspacePos_loop line n
     \<and> line ! nat (getLastNonspacePos_loop line n) = last (filter (\<lambda>c. \<not> isspace c) (take n line))"
      by simp
    with True t show ?thesis by simp
  qed
qed

lemma getLastNonspacePos_last:
  assumes "\<not> isBlank line"
  shows "0 \<le> getLastNonspacePos line
     \<and> line ! nat (getLastNonspacePos line) = last (filter (\<lambda>c. \<not> isspace c) line)"
  using assms getLastNonspacePos_loop_last [of "length line" line]
  by (simp add: isBlank_iff getLastNonspacePos_def)

lemma readFile_afterBraces: "readFile ls = scanScopeLabels (afterBraces ls)"
  by (simp add: readFile_def afterBraces_def)

lemma afterBraces_fileLines: "fileLines (afterBraces ls) = ls"
  by (simp add: afterBraces_def scanScopeLevels_def scanNewTypeDefs_def
      scanCommentLines_def newScanner_def Let_def)

lemma afterBraces_commentLines: "commentLines (afterBraces ls) = commentLines (readFile ls)"
  by (simp add: readFile_afterBraces scanScopeLabels_def)

lemma countBraces_net: "countBraces line lvl = lvl + netBraces line"
proof -
  have "foldl (\<lambda>lvl c. if c = LEFT_BRACE then lvl + 1
                    else if c = RIGHT_BRACE then lvl - 1
                    else lvl) lvl line = lvl + netBraces line"
    by (induction line arbitrary: lvl)
      (auto simp: netBraces_def LEFT_BRACE_def RIGHT_BRACE_def)
  then show ?thesis by (simp add: countBraces_def)
qed

lemma scanScopeLevels_body_snd:
  "snd (scanScopeLevels_body ls cl st j) = (snd st)[j := scopeRecorded (fst st) (cl ! j) (ls ! j)]"
  by (cases "j < length (snd st)")
    (simp_all add: scanScopeLevels_body_def scopeRecorded_def Let_def list_update_beyond)

lemma scanScopeLevels_body_fst:
  "fst (scanScopeLevels_body ls cl st j) = scopeNext (fst st) (cl ! j) (ls ! j)"
  by (simp add: scanScopeLevels_body_def scopeNext_def Let_def)

lemma afterBraces_scopeLevels:
  "scopeLevels (afterBraces ls) =
     snd (scanScopeLevels_loop ls (commentLines (scanCommentLines (newScanner ls)))
            (resize [] (length ls) 0) (length ls))"
  by (simp add: afterBraces_def scanScopeLevels_def scanNewTypeDefs_def
      scanCommentLines_def newScanner_def Let_def)

lemma afterBraces_length: "length (scopeLevels (afterBraces ls)) = length ls"
  using upt_fold_length [of "scanScopeLevels_body ls (commentLines (scanCommentLines (newScanner ls)))"
      "\<lambda>st j. scopeRecorded (fst st) (commentLines (scanCommentLines (newScanner ls)) ! j) (ls ! j)"
      "(0, resize [] (length ls) 0)" "length ls"]
  by (simp add: afterBraces_scopeLevels scanScopeLevels_loop_def scanScopeLevels_body_snd resize_def)

lemma scopeLevelBefore_Suc:
  "scopeLevelBefore ls (Suc i) =
     scopeNext (scopeLevelBefore ls i) (commentLines (readFile ls) ! i) (ls ! i)"
  by (simp add: scopeLevelBefore_def scanScopeLevels_loop_def scanScopeLevels_body_fst
      scanCommentLines_commentLines)

lemma afterBraces_nth:
  assumes "i < length ls"
  shows "scopeLevels (afterBraces ls) ! i =
     scopeRecorded (scopeLevelBefore ls i) (commentLines (readFile ls) ! i) (ls ! i)"
proof -
  let ?cl = "commentLines (scanCommentLines (newScanner ls))"
  let ?f = "scanScopeLevels_body ls ?cl"
  let ?v = "\<lambda>st j. scopeRecorded (fst st) (?cl ! j) (ls ! j)"
  let ?st0 = "(0::int, resize [] (length ls) (0::int))"
  have upd: "\<And>st j. snd (?f st j) = (snd st)[j := ?v st j]"
    by (rule scanScopeLevels_body_snd)
  have "i < length (snd ?st0)" using assms by (simp add: resize_def)
  with assms have "snd (foldl ?f ?st0 [0..<length ls]) ! i = ?v (foldl ?f ?st0 [0..<i]) i"
    using upt_fold_nth [of ?f ?v i "length ls" ?st0] upd by blast
  then show ?thesis
    by (simp add: afterBraces_scopeLevels scanScopeLevels_loop_def scopeLevelBefore_def
        scanCommentLines_commentLines)
qed

lemma scanScopeLabels_body_snd:
  "snd (scanScopeLabels_body ls cl st j) =
     (snd st)[j := labelAdjusted (fst st) (snd st ! j) (cl ! j = NO_COMMENT \<and> isLineLabel (ls ! j))]"
  by (simp add: scanScopeLabels_body_def labelAdjusted_def Let_def)

lemma scanScopeLabels_body_fst:
  "fst (scanScopeLabels_body ls cl st j) =
     labelNext (fst st) (snd st ! j) (cl ! j = NO_COMMENT \<and> isLineLabel (ls ! j))"
  by (simp add: scanScopeLabels_body_def labelNext_def Let_def)

lemma readFile_scopeLevels:
  "scopeLevels (readFile ls) =
     snd (scanScopeLabels_loop ls (commentLines (afterBraces ls)) (scopeLevels (afterBraces ls))
            (length ls))"
  by (simp add: readFile_afterBraces scanScopeLabels_def afterBraces_fileLines)

lemma labels_untouched:
  "snd (foldl (scanScopeLabels_body ls cl) (0, sl) [0..<i]) ! i = sl ! i"
  using upt_fold_beyond [of "scanScopeLabels_body ls cl"
      "\<lambda>st j. labelAdjusted (fst st) (snd st ! j) (cl ! j = NO_COMMENT \<and> isLineLabel (ls ! j))"
      i i "(0, sl)"]
  by (simp add: scanScopeLabels_body_snd)

lemma labelLevelBefore_0: "labelLevelBefore ls 0 = 0"
  by (simp add: labelLevelBefore_def scanScopeLabels_loop_def)

lemma labelLevelBefore_Suc:
  "labelLevelBefore ls (Suc i) =
     labelNext (labelLevelBefore ls i) (scopeLevels (afterBraces ls) ! i) (thisLineLabel ls i)"
  by (simp add: labelLevelBefore_def scanScopeLabels_loop_def scanScopeLabels_body_fst
      labels_untouched thisLineLabel_def afterBraces_commentLines)

lemma readFile_scopeLevels_nth:
  assumes "i < length ls"
  shows "scopeLevels (readFile ls) ! i =
     labelAdjusted (labelLevelBefore ls i) (scopeLevels (afterBraces ls) ! i) (thisLineLabel ls i)"
proof -
  let ?cl = "commentLines (afterBraces ls)"
  let ?sl = "scopeLevels (afterBraces ls)"
  let ?f = "scanScopeLabels_body ls ?cl"
  let ?v = "\<lambda>st j. labelAdjusted (fst st) (snd st ! j) (?cl ! j = NO_COMMENT \<and> isLineLabel (ls ! j))"
  have upd: "\<And>st j. snd (?f st j) = (snd st)[j := ?v st j]"
    by (rule scanScopeLabels_body_snd)
  have "i < length (snd (0::int, ?sl))" using assms by (simp add: afterBraces_length)
  with assms have "snd (foldl ?f (0, ?sl) [0..<length ls]) ! i = ?v (foldl ?f (0, ?sl) [0..<i]) i"
    using upt_fold_nth [of ?f ?v i "length ls" "(0, ?sl)"] upd by blast
  then show ?thesis
    by (simp add: readFile_scopeLevels scanScopeLabels_loop_def labelLevelBefore_def
        labels_untouched thisLineLabel_def afterBraces_commentLines)
qed

lemma labelLevelBefore_region:
  "labelLevelBefore ls i \<noteq> 0 \<Longrightarrow>
     \<exists>j<i. thisLineLabel ls j \<and> scopeLevels (afterBraces ls) ! j = labelLevelBefore ls i
        \<and> (\<forall>k. j < k \<and> k < i \<longrightarrow> labelLevelBefore ls i \<le> scopeLevels (afterBraces ls) ! k)"
proof (induction i)
  case 0
  then show ?case by (simp add: labelLevelBefore_0)
next
  case (Suc i)
  let ?sl = "scopeLevels (afterBraces ls)"
  let ?L = "labelLevelBefore ls i"
  show ?case
  proof (cases "?L = 0")
    case True
    with Suc.prems have lab: "thisLineLabel ls i" and eq: "labelLevelBefore ls (Suc i) = ?sl ! i"
      by (auto simp: labelLevelBefore_Suc labelNext_def split: if_splits)
    have "i < Suc i \<and> thisLineLabel ls i \<and> ?sl ! i = labelLevelBefore ls (Suc i)
        \<and> (\<forall>k. i < k \<and> k < Suc i \<longrightarrow> labelLevelBefore ls (Suc i) \<le> ?sl ! k)"
      using lab eq by auto
    then show ?thesis by blast
  next
    case False
    with Suc.prems have ge: "?L \<le> ?sl ! i" and eq: "labelLevelBefore ls (Suc i) = ?L"
      by (auto simp: labelLevelBefore_Suc labelNext_def split: if_splits)
    from Suc.IH [OF False] obtain j where j: "j < i" "thisLineLabel ls j" "?sl ! j = ?L"
      "\<forall>k. j < k \<and> k < i \<longrightarrow> ?L \<le> ?sl ! k" by blast
    have "\<forall>k. j < k \<and> k < Suc i \<longrightarrow> ?L \<le> ?sl ! k"
    proof (intro allI impI)
      fix k assume "j < k \<and> k < Suc i"
      then have "(j < k \<and> k < i) \<or> k = i" by auto
      with j(4) ge show "?L \<le> ?sl ! k" by blast
    qed
    with j eq have "j < Suc i \<and> thisLineLabel ls j \<and> ?sl ! j = labelLevelBefore ls (Suc i)
        \<and> (\<forall>k. j < k \<and> k < Suc i \<longrightarrow> labelLevelBefore ls (Suc i) \<le> ?sl ! k)"
      by simp
    then show ?thesis by blast
  qed
qed

lemma labelLevelBefore_nonneg:
  assumes "\<forall>j<length ls. thisLineLabel ls j \<longrightarrow> 0 \<le> scopeLevels (afterBraces ls) ! j"
  shows "i \<le> length ls \<Longrightarrow> 0 \<le> labelLevelBefore ls i"
proof (induction i)
  case 0
  then show ?case by (simp add: labelLevelBefore_0)
next
  case (Suc i)
  then have "0 \<le> labelLevelBefore ls i" "i < length ls" by simp_all
  with assms show ?case by (auto simp: labelLevelBefore_Suc labelNext_def)
qed

lemma getTokens_nonempty: "[] \<notin> set (getTokens s pos)"
proof (induction s pos rule: getTokens.induct)
  case (1 s pos)
  show ?case
  proof (cases "fst (getNextToken s pos) = []")
    case True
    then show ?thesis by (simp add: getTokens_empty)
  next
    case False
    with 1 show ?thesis by (simp add: getTokens_Cons)
  qed
qed

lemma getNextToken_empty_again:
  assumes "fst (getNextToken s pos) = []"
  shows "fst (getNextToken s (snd (getNextToken s pos))) = []"
proof -
  let ?p = "advance isspace s pos"
  show ?thesis
  proof (cases "?p \<ge> length s")
    case True
    then have "getNextToken s pos = ([], ?p)" by (simp add: getNextToken_def)
    moreover from True have "advance isspace s ?p = ?p" by (simp add: advance_id)
    ultimately show ?thesis using True by (simp add: getNextToken_def)
  next
    case False
    then have lt: "?p < length s" by simp
    then have gnt: "getNextToken s pos = (take (findTokenEnd s ?p - ?p) (drop ?p s), findTokenEnd s ?p)"
      by (simp add: getNextToken_def Let_def)
    with assms lt have "findTokenEnd s ?p - ?p = 0" by simp
    with findTokenEnd_ge [of ?p s] have e: "findTokenEnd s ?p = ?p" by simp
    from lt have "\<not> isspace (s ! ?p)" by (rule advance_stop)
    then have "advance isspace s ?p = ?p" by (simp add: advance_id)
    with gnt e lt show ?thesis by (simp add: getNextToken_def Let_def)
  qed
qed

lemma tokenAt_tl: "tokenAt (tl ts) i = tokenAt ts (Suc i)"
  by (cases ts) (simp_all add: tokenAt_def)

lemma getNextToken_view:
  "fst (getNextToken s pos) = tokenAt (getTokens s pos) 0
   \<and> getTokens s (snd (getNextToken s pos)) = tl (getTokens s pos)"
proof (cases "fst (getNextToken s pos) = []")
  case True
  then have "getTokens s pos = []" by (rule getTokens_empty)
  moreover from True have "getTokens s (snd (getNextToken s pos)) = []"
    by (intro getTokens_empty getNextToken_empty_again)
  ultimately show ?thesis using True by (simp add: tokenAt_def)
next
  case False
  then show ?thesis by (simp add: getTokens_Cons tokenAt_def)
qed

lemma skipStars_view:
  "name = tokenAt ts 0 \<Longrightarrow> getTokens s pos = tl ts \<Longrightarrow>
   fst (skipStars s name pos) = tokenAt (dropWhile (\<lambda>t. t = ''*'') ts) 0
   \<and> getTokens s (snd (skipStars s name pos)) = tl (dropWhile (\<lambda>t. t = ''*'') ts)"
proof (induction s name pos arbitrary: ts rule: skipStars.induct)
  case (1 s name pos)
  show ?case
  proof (cases "name = ''*''")
    case True
    with "1.prems" obtain ts' where ts: "ts = ''*'' # ts'"
      by (cases ts) (auto simp: tokenAt_def)
    with "1.prems" have tl: "getTokens s pos = ts'" by simp
    have v: "fst (getNextToken s pos) = tokenAt ts' 0"
      "getTokens s (snd (getNextToken s pos)) = tl ts'"
      using getNextToken_view [of s pos] tl by simp_all
    have "fst (skipStars s (fst (getNextToken s pos)) (snd (getNextToken s pos)))
            = tokenAt (dropWhile (\<lambda>t. t = ''*'') ts') 0
        \<and> getTokens s (snd (skipStars s (fst (getNextToken s pos)) (snd (getNextToken s pos))))
            = tl (dropWhile (\<lambda>t. t = ''*'') ts')"
      using "1.IH" [OF True v] .
    moreover have "skipStars s name pos
        = skipStars s (fst (getNextToken s pos)) (snd (getNextToken s pos))"
      using True by (subst skipStars.simps) simp
    ultimately show ?thesis using ts by simp
  next
    case False
    then have r: "skipStars s name pos = (name, pos)" by (subst skipStars.simps) simp
    show ?thesis
    proof (cases ts)
      case Nil
      with "1.prems" r show ?thesis by (simp add: tokenAt_def)
    next
      case (Cons t ts')
      with "1.prems" False have "t \<noteq> ''*''" by (simp add: tokenAt_def)
      with Cons "1.prems" r show ?thesis by (simp add: tokenAt_def)
    qed
  qed
qed

lemma commentStateBefore_open:
  assumes "stringStartsWith (getFirstToken (ls ! k)) C_COMMENT_START"
    and nc: "\<forall>j. k \<le> j \<and> j < i \<longrightarrow> \<not> stringEndsWith (getLastToken (ls ! j)) C_COMMENT_END"
  shows "k < m \<Longrightarrow> m \<le> i \<Longrightarrow> commentStateBefore ls m"
proof (induction m)
  case 0
  then show ?case by simp
next
  case (Suc m)
  then have "k \<le> m" "m < i" by simp_all
  with nc have ncm: "\<not> stringEndsWith (getLastToken (ls ! m)) C_COMMENT_END" by blast
  show ?case
  proof (cases "m = k")
    case True
    with assms(1) ncm show ?thesis by (simp add: commentStateBefore_Suc commentNext_def)
  next
    case False
    with Suc have "commentStateBefore ls m" by simp
    with ncm show ?thesis by (simp add: commentStateBefore_Suc commentNext_def)
  qed
qed

lemma scenario_tokens:
  "\<not> stringStartsWith (getFirstToken ''public:'') DOUBLE_SLASH"
  "\<not> stringStartsWith (getFirstToken ''public:'') C_COMMENT_START"
  "\<not> stringEndsWith (getLastToken ''public:'') C_COMMENT_END"
  "\<not> stringStartsWith (getFirstToken (CHR 0x09 # ''doThing();'')) DOUBLE_SLASH"
  "\<not> stringStartsWith (getFirstToken (CHR 0x09 # ''doThing();'')) C_COMMENT_START"
  "\<not> stringEndsWith (getLastToken (CHR 0x09 # ''doThing();'')) C_COMMENT_END"
  "\<not> stringStartsWith (getFirstToken ''}'') DOUBLE_SLASH"
  "\<not> stringStartsWith (getFirstToken ''}'') C_COMMENT_START"
  by code_simp+

lemma scenario_braces:
  "\<not> isLineStartCloseBrace ''public:''" "netBraces ''public:'' = 0"
  "\<not> isLineStartCloseBrace (CHR 0x09 # ''doThing();'')"
  "netBraces (CHR 0x09 # ''doThing();'') = 0"
  "isLineStartCloseBrace ''}''"
  by code_simp+

lemma scenario_labels:
  "isLineLabel ''public:''" "\<not> isLineLabel (CHR 0x09 # ''doThing();'')" "\<not> isLineLabel ''}''"
  by code_simp+

lemma scenario_context:
  assumes len: "Suc (Suc n) < length ls"
    and l0: "ls ! n = ''public:''"
    and l1: "ls ! Suc n = CHR 0x09 # ''doThing();''"
    and l2: "ls ! Suc (Suc n) = ''}''"
    and depth: "scopeLevelBefore ls n = 1"
    and tag: "commentLines (readFile ls) ! n = NO_COMMENT"
  shows "scopeLevels (afterBraces ls) ! n = 1"
    and "scopeLevels (afterBraces ls) ! Suc n = 1"
    and "scopeLevels (afterBraces ls) ! Suc (Suc n) = 0"
    and "thisLineLabel ls n"
    and "\<not> thisLineLabel ls (Suc n)"
    and "\<not> thisLineLabel ls (Suc (Suc n))"
proof -
  from len have n: "n < length ls" and n1: "Suc n < length ls" by simp_all
  have "commentTag (commentStateBefore ls n) NO_COMMENT ''public:'' = NO_COMMENT"
    using tag commentLines_nth [OF n] l0 by simp
  then have c0: "\<not> commentStateBefore ls n"
    by (auto simp: commentTag_def split: if_splits)
  have c1: "\<not> commentStateBefore ls (Suc n)"
    using c0 by (simp add: commentStateBefore_Suc commentNext_def l0 scenario_tokens)
  have c2: "\<not> commentStateBefore ls (Suc (Suc n))"
    using c0 by (simp add: commentStateBefore_Suc commentNext_def l0 l1 scenario_tokens)
  have t1: "commentLines (readFile ls) ! Suc n = NO_COMMENT"
    using c1 by (simp add: commentLines_nth [OF n1] commentTag_def l1 scenario_tokens)
  have t2: "commentLines (readFile ls) ! Suc (Suc n) = NO_COMMENT"
    using c2 by (simp add: commentLines_nth [OF len] commentTag_def l2 scenario_tokens)
  have d1: "scopeLevelBefore ls (Suc n) = 1"
    using depth tag by (simp add: scopeLevelBefore_Suc scopeNext_def countBraces_net l0 scenario_braces)
  have d2: "scopeLevelBefore ls (Suc (Suc n)) = 1"
    using d1 t1 by (simp add: scopeLevelBefore_Suc scopeNext_def countBraces_net l1 scenario_braces)
  show "scopeLevels (afterBraces ls) ! n = 1"
    using depth by (simp add: afterBraces_nth [OF n] scopeRecorded_def l0 scenario_braces)
  show "scopeLevels (afterBraces ls) ! Suc n = 1"
    using d1 by (simp add: afterBraces_nth [OF n1] scopeRecorded_def l1 scenario_braces)
  show "scopeLevels (afterBraces ls) ! Suc (Suc n) = 0"
    using d2 t2 by (simp add: afterBraces_nth [OF len] scopeRecorded_def l2 scenario_braces)
  show "thisLineLabel ls n" using tag by (simp add: thisLineLabel_def l0 scenario_labels)
  show "\<not> thisLineLabel ls (Suc n)" by (simp add: thisLineLabel_def l1 scenario_labels)
  show "\<not> thisLineLabel ls (Suc (Suc n))" by (simp add: thisLineLabel_def l2 scenario_labels)
qed

section \<open>Verified claims\<close>

text \<open>
  Claim C1, as stated: a line is a function header exactly when its first token is a
  built-in type name or a type name of the registry, the line does not end in a
  semicolon, and the tokens after the type have the shape of a header; in particular a
  line that starts with a registered class name is a function header. It fails:
  \<^verbatim>\<open>isFunctionHeader\<close> tests the first token with \<^verbatim>\<open>isBasicType\<close> only. Below, \<^verbatim>\<open>Foo\<close> is
  in the registry and the line has the shape of a header for the registry-aware test,
  yet \<^verbatim>\<open>isFunctionHeader\<close> is false.
\<close>

theorem function_header_counterexample:
  "isNewType (readFile [''class Foo {'', ''};'', ''Foo makeFoo() {'']) ''Foo''
   \<and> \<not> isBasicType ''Foo''
   \<and> headerShape (isAnyType (readFile [''class Foo {'', ''};'', ''Foo makeFoo() {'']))
        ''Foo makeFoo() {''
   \<and> \<not> isFunctionHeader ''Foo makeFoo() {''"
  by code_simp

text \<open>
  Claim C1, amended: a line is a function header exactly when its first token is one of
  the seven built-in type names (the registry is not consulted), the line does not end
  in a semicolon, and the tokens after the type, once any number of \<^verbatim>\<open>*\<close> tokens are
  skipped, are a name followed by a token that starts with an open parenthesis, or a
  name, \<^verbatim>\<open>::\<close>, a name and a token that starts with an open parenthesis.
\<close>

theorem function_header:
  "isFunctionHeader s = headerShape isBasicType s"
proof -
  define T where "T = getTokens s 0"
  define D where "D = dropWhile (\<lambda>t. t = ''*'') (tl T)"
  define p1 where "p1 = snd (getNextToken s 0)"
  define p2 where "p2 = snd (getNextToken s p1)"
  define r where "r = skipStars s (fst (getNextToken s p1)) p2"
  define p4 where "p4 = snd (getNextToken s (snd r))"
  define p5 where "p5 = snd (getNextToken s p4)"
  have t0: "fst (getNextToken s 0) = tokenAt T 0" and g1: "getTokens s p1 = tl T"
    using getNextToken_view [of s 0] by (simp_all add: T_def p1_def)
  have n1: "fst (getNextToken s p1) = tokenAt (tl T) 0" and g2: "getTokens s p2 = tl (tl T)"
    using getNextToken_view [of s p1] g1 by (simp_all add: p2_def)
  have g3: "getTokens s (snd r) = tl D"
    using skipStars_view [OF n1 g2] by (simp add: r_def D_def)
  have sym: "fst (getNextToken s (snd r)) = tokenAt D 1" and g4: "getTokens s p4 = tl (tl D)"
    using getNextToken_view [of s "snd r"] g3 by (simp_all add: p4_def tokenAt_tl)
  have g5: "getTokens s p5 = tl (tl (tl D))"
    using getNextToken_view [of s p4] g4 by (simp add: p5_def)
  have sym2: "fst (getNextToken s p5) = tokenAt D 3"
    using getNextToken_view [of s p5] g5 by (simp add: tokenAt_tl numeral_3_eq_3)
  have "isFunctionHeader s =
      (isBasicType (tokenAt T 0) \<and> \<not> isLineEndingSemicolon s
        \<and> (if tokenAt D 1 = ''::'' then isStartParen (tokenAt D 3)
           else isStartParen (tokenAt D 1)))"
    unfolding isFunctionHeader_def isFunctionHeader_name_def Let_def
    unfolding p1_def [symmetric] p2_def [symmetric] r_def [symmetric] p4_def [symmetric]
      p5_def [symmetric]
    by (simp add: t0 sym sym2)
  then show ?thesis by (simp add: headerShape_def Let_def T_def D_def)
qed

theorem function_header_witness:
  "isFunctionHeader ''int * Foo::bar (x) {''
   \<and> headerShape isBasicType ''int * Foo::bar (x) {''
   \<and> \<not> isFunctionHeader ''int makeFoo();''"
proof -
  have a: "headerShape isBasicType ''int * Foo::bar (x) {''" by code_simp
  have b: "\<not> headerShape isBasicType ''int makeFoo();''" by code_simp
  from a b show ?thesis
    using function_header [of "''int * Foo::bar (x) {''"] function_header [of "''int makeFoo();''"]
    by blast
qed

text \<open>
  Claim C2: for a line that is no comment and whose first character that is no space is a
  closing brace, the depth recorded by \<^verbatim>\<open>scanScopeLevels\<close> is the running counter at the
  start of the line minus one; the counter itself moves by the net brace balance of the
  line only, and it is this uncorrected counter that the next line starts from (the next
  line's recorded depth is that counter, less its own correction if it starts with a
  closing brace too).
\<close>

theorem close_brace_correction:
  assumes "i < length ls"
    and "commentLines (readFile ls) ! i = NO_COMMENT"
    and "isLineStartCloseBrace (ls ! i)"
  shows "scopeLevels (afterBraces ls) ! i = scopeLevelBefore ls i - 1
     \<and> scopeLevelBefore ls (Suc i) = scopeLevelBefore ls i + netBraces (ls ! i)
     \<and> (Suc i < length ls \<longrightarrow>
          scopeLevels (afterBraces ls) ! Suc i =
            scopeLevelBefore ls (Suc i)
              - (if commentLines (readFile ls) ! Suc i = NO_COMMENT
                    \<and> isLineStartCloseBrace (ls ! Suc i) then 1 else 0))"
proof (intro conjI impI)
  show "scopeLevels (afterBraces ls) ! i = scopeLevelBefore ls i - 1"
    using assms by (simp add: afterBraces_nth scopeRecorded_def)
next
  show "scopeLevelBefore ls (Suc i) = scopeLevelBefore ls i + netBraces (ls ! i)"
    using assms by (simp add: scopeLevelBefore_Suc scopeNext_def countBraces_net)
next
  assume "Suc i < length ls"
  then show "scopeLevels (afterBraces ls) ! Suc i =
            scopeLevelBefore ls (Suc i)
              - (if commentLines (readFile ls) ! Suc i = NO_COMMENT
                    \<and> isLineStartCloseBrace (ls ! Suc i) then 1 else 0)"
    by (simp add: afterBraces_nth scopeRecorded_def)
qed

theorem close_brace_correction_witness:
  "scopeLevelBefore [''a {'', ''b {'', ''}'', ''}''] 2 = 2
   \<and> scopeLevels (afterBraces [''a {'', ''b {'', ''}'', ''}'']) ! 2 = 1
   \<and> scopeLevelBefore [''a {'', ''b {'', ''}'', ''}''] 3 = 1
   \<and> scopeLevels (afterBraces [''a {'', ''b {'', ''}'', ''}'']) ! 3 = 0"
proof -
  let ?L = "[''a {'', ''b {'', ''}'', ''}'']"
  have h1: "2 < length ?L" by simp
  have h2: "commentLines (readFile ?L) ! 2 = NO_COMMENT" by code_simp
  have h3: "isLineStartCloseBrace (?L ! 2)" by code_simp
  have h4: "Suc 2 < length ?L" by simp
  have h5: "commentLines (readFile ?L) ! Suc 2 = NO_COMMENT \<and> isLineStartCloseBrace (?L ! Suc 2)"
    by code_simp
  have v: "scopeLevelBefore ?L 2 = 2" by code_simp
  have n: "netBraces (?L ! 2) = -1" by code_simp
  from close_brace_correction [OF h1 h2 h3]
  have a: "scopeLevels (afterBraces ?L) ! 2 = scopeLevelBefore ?L 2 - 1"
    and b: "scopeLevelBefore ?L (Suc 2) = scopeLevelBefore ?L 2 + netBraces (?L ! 2)"
    and c: "scopeLevels (afterBraces ?L) ! Suc 2 =
            scopeLevelBefore ?L (Suc 2)
              - (if commentLines (readFile ?L) ! Suc 2 = NO_COMMENT
                    \<and> isLineStartCloseBrace (?L ! Suc 2) then 1 else 0)"
    using h4 by blast+
  have s: "Suc 2 = 3" by simp
  from a v have a': "scopeLevels (afterBraces ?L) ! 2 = 1" by simp
  from b v n have b': "scopeLevelBefore ?L 3 = 1" unfolding s by simp
  from c h5 b' have c': "scopeLevels (afterBraces ?L) ! 3 = 0" unfolding s by simp
  from v a' b' c' show ?thesis by (intro conjI)
qed

text \<open>
  Claim C3, as stated: no line lying strictly inside an open block comment, that is,
  after a line that opens the comment and before the line that closes it, is tagged
  \<open>CPP_COMMENT\<close> (line comment). It fails: the check for \<^verbatim>\<open>//\<close> comes last in the loop
  body and overwrites the tag. Below, line 0 opens a block comment, line 2 is the first
  line that closes it, and line 1 in between is tagged as a line comment.
\<close>

theorem line_comment_inside_block_counterexample:
  "stringStartsWith (getFirstToken ([''/* start'', ''// body'', ''end */''] ! 0)) C_COMMENT_START
   \<and> \<not> stringEndsWith (getLastToken ([''/* start'', ''// body'', ''end */''] ! 0)) C_COMMENT_END
   \<and> \<not> stringEndsWith (getLastToken ([''/* start'', ''// body'', ''end */''] ! 1)) C_COMMENT_END
   \<and> stringEndsWith (getLastToken ([''/* start'', ''// body'', ''end */''] ! 2)) C_COMMENT_END
   \<and> commentLines (readFile [''/* start'', ''// body'', ''end */'']) ! 1 = CPP_COMMENT"
  by code_simp

text \<open>
  Claim C3, amended: when line \<open>k\<close> opens a block comment and no line from \<open>k\<close> up to,
  but not including, line \<open>i\<close> closes it, line \<open>i\<close> is tagged as a line comment
  exactly when its first token starts with \<^verbatim>\<open>//\<close>, and as a block comment otherwise.
  This covers every line strictly inside the comment, and the line that closes it.
\<close>

theorem tag_inside_block_comment:
  assumes "k < i" and "i < length ls"
    and "stringStartsWith (getFirstToken (ls ! k)) C_COMMENT_START"
    and "\<forall>j. k \<le> j \<and> j < i \<longrightarrow> \<not> stringEndsWith (getLastToken (ls ! j)) C_COMMENT_END"
  shows "commentLines (readFile ls) ! i =
     (if stringStartsWith (getFirstToken (ls ! i)) DOUBLE_SLASH then CPP_COMMENT else C_COMMENT)"
proof -
  have "commentStateBefore ls i"
    using commentStateBefore_open [OF assms(3,4), of i] assms(1) by simp
  with assms(2) show ?thesis by (simp add: commentLines_nth commentTag_def)
qed

theorem tag_inside_block_comment_witness:
  "commentLines (readFile [''/* start'', ''body'', ''// more'', ''end */'', ''x'']) ! 1 = C_COMMENT
   \<and> commentLines (readFile [''/* start'', ''body'', ''// more'', ''end */'', ''x'']) ! 2 = CPP_COMMENT
   \<and> commentLines (readFile [''/* start'', ''body'', ''// more'', ''end */'', ''x'']) ! 3 = C_COMMENT"
proof -
  let ?L = "[''/* start'', ''body'', ''// more'', ''end */'', ''x'']"
  have o: "stringStartsWith (getFirstToken (?L ! 0)) C_COMMENT_START" by code_simp
  have c0: "\<not> stringEndsWith (getLastToken (?L ! 0)) C_COMMENT_END" by code_simp
  have c1: "\<not> stringEndsWith (getLastToken (?L ! 1)) C_COMMENT_END" by code_simp
  have c2: "\<not> stringEndsWith (getLastToken (?L ! 2)) C_COMMENT_END" by code_simp
  have nc: "\<forall>j. 0 \<le> j \<and> j < i \<longrightarrow> \<not> stringEndsWith (getLastToken (?L ! j)) C_COMMENT_END"
    if "i \<le> 3" for i
  proof (intro allI impI)
    fix j assume "0 \<le> j \<and> j < i"
    with that have "j = 0 \<or> j = 1 \<or> j = 2" by auto
    with c0 c1 c2 show "\<not> stringEndsWith (getLastToken (?L ! j)) C_COMMENT_END" by blast
  qed
  have s1: "\<not> stringStartsWith (getFirstToken (?L ! 1)) DOUBLE_SLASH" by code_simp
  have s2: "stringStartsWith (getFirstToken (?L ! 2)) DOUBLE_SLASH" by code_simp
  have s3: "\<not> stringStartsWith (getFirstToken (?L ! 3)) DOUBLE_SLASH" by code_simp
  have len: "1 < length ?L" "2 < length ?L" "3 < length ?L" by simp_all
  have a: "commentLines (readFile ?L) ! 1 = C_COMMENT"
    using tag_inside_block_comment [OF _ len(1) o nc [of 1]] s1 by simp
  have b: "commentLines (readFile ?L) ! 2 = CPP_COMMENT"
    using tag_inside_block_comment [OF _ len(2) o nc [of 2]] s2 by simp
  have c: "commentLines (readFile ?L) ! 3 = C_COMMENT"
    using tag_inside_block_comment [OF _ len(3) o nc [of 3]] s3 by simp
  from a b c show ?thesis by (intro conjI)
qed

text \<open>
  Claim C4, as stated: on every input, malformed ones included, a line whose depth before
  the label pass is 0 or below is never raised by the label pass. It fails when a label
  line sits at a negative depth: \<^verbatim>\<open>labelLevel\<close> is then negative, which the pass reads
  as "inside a label region". Below, the third line has depth \<open>-1\<close> after the brace pass
  and \<open>0\<close> after the label pass.
\<close>

theorem label_adjustment_counterexample:
  "scopeLevels (afterBraces [''}'', ''case 1:'', ''x;'']) ! 2 = -1
   \<and> scopeLevels (readFile [''}'', ''case 1:'', ''x;'']) ! 2 = 0"
  by code_simp

text \<open>
  Claim C4, amended: on every input, the label pass changes the depth of a line only by
  raising it by one, and only for a line that is no label line and lies after a label
  line \<open>j\<close> of non-zero depth such that every line after \<open>j\<close> up to and including the
  line itself is at or above the depth of \<open>j\<close>. When no label line has a negative depth
  (in particular when the brace depth never goes negative), a line of depth 0 or below
  is never changed.
\<close>

theorem label_adjustment:
  "(i < length ls \<and> scopeLevels (readFile ls) ! i \<noteq> scopeLevels (afterBraces ls) ! i \<longrightarrow>
      scopeLevels (readFile ls) ! i = scopeLevels (afterBraces ls) ! i + 1
      \<and> \<not> thisLineLabel ls i
      \<and> (\<exists>j<i. thisLineLabel ls j \<and> scopeLevels (afterBraces ls) ! j \<noteq> 0
            \<and> (\<forall>k. j < k \<and> k \<le> i \<longrightarrow>
                  scopeLevels (afterBraces ls) ! j \<le> scopeLevels (afterBraces ls) ! k)))
   \<and> ((\<forall>j<length ls. thisLineLabel ls j \<longrightarrow> 0 \<le> scopeLevels (afterBraces ls) ! j) \<longrightarrow>
        (\<forall>i<length ls. scopeLevels (afterBraces ls) ! i \<le> 0 \<longrightarrow>
            scopeLevels (readFile ls) ! i = scopeLevels (afterBraces ls) ! i))"
proof (intro conjI impI allI)
  let ?sl = "scopeLevels (afterBraces ls)"
  let ?L = "labelLevelBefore ls i"
  assume a: "i < length ls \<and> scopeLevels (readFile ls) ! i \<noteq> ?sl ! i"
  then have fin: "scopeLevels (readFile ls) ! i = labelAdjusted ?L (?sl ! i) (thisLineLabel ls i)"
    by (simp add: readFile_scopeLevels_nth)
  with a have adj: "labelAdjusted ?L (?sl ! i) (thisLineLabel ls i) \<noteq> ?sl ! i" by simp
  then have nz: "?L \<noteq> 0" and ge: "?L \<le> ?sl ! i" and nl: "\<not> thisLineLabel ls i"
    by (auto simp: labelAdjusted_def split: if_splits)
  from nz ge nl fin show "scopeLevels (readFile ls) ! i = ?sl ! i + 1"
    by (simp add: labelAdjusted_def)
  from nl show "\<not> thisLineLabel ls i" .
  from labelLevelBefore_region [OF nz] obtain j where j: "j < i" "thisLineLabel ls j"
    "?sl ! j = ?L" "\<forall>k. j < k \<and> k < i \<longrightarrow> ?L \<le> ?sl ! k" by blast
  have "\<forall>k. j < k \<and> k \<le> i \<longrightarrow> ?sl ! j \<le> ?sl ! k"
  proof (intro allI impI)
    fix k assume "j < k \<and> k \<le> i"
    then have "(j < k \<and> k < i) \<or> k = i" by auto
    with j(3,4) ge show "?sl ! j \<le> ?sl ! k" by auto
  qed
  with j nz have "j < i \<and> thisLineLabel ls j \<and> ?sl ! j \<noteq> 0
      \<and> (\<forall>k. j < k \<and> k \<le> i \<longrightarrow> ?sl ! j \<le> ?sl ! k)" by simp
  then show "\<exists>j<i. thisLineLabel ls j \<and> ?sl ! j \<noteq> 0
      \<and> (\<forall>k. j < k \<and> k \<le> i \<longrightarrow> ?sl ! j \<le> ?sl ! k)" by blast
next
  fix i
  let ?sl = "scopeLevels (afterBraces ls)"
  assume lab: "\<forall>j<length ls. thisLineLabel ls j \<longrightarrow> 0 \<le> ?sl ! j"
    and i: "i < length ls" and d: "?sl ! i \<le> 0"
  from i have "0 \<le> labelLevelBefore ls i" using labelLevelBefore_nonneg [OF lab, of i] by simp
  with d have "labelAdjusted (labelLevelBefore ls i) (?sl ! i) (thisLineLabel ls i) = ?sl ! i"
    by (auto simp: labelAdjusted_def)
  with i show "scopeLevels (readFile ls) ! i = ?sl ! i" by (simp add: readFile_scopeLevels_nth)
qed

theorem label_adjustment_witness:
  "scopeLevels (afterBraces [''class Foo {'', ''public:'', ''x;'', ''}'']) = [0, 1, 1, 0]
   \<and> scopeLevels (readFile [''class Foo {'', ''public:'', ''x;'', ''}'']) ! 2
       = scopeLevels (afterBraces [''class Foo {'', ''public:'', ''x;'', ''}'']) ! 2 + 1
   \<and> \<not> thisLineLabel [''class Foo {'', ''public:'', ''x;'', ''}''] 2
   \<and> scopeLevels (readFile [''class Foo {'', ''public:'', ''x;'', ''}'']) ! 3
       = scopeLevels (afterBraces [''class Foo {'', ''public:'', ''x;'', ''}'']) ! 3"
proof -
  let ?L = "[''class Foo {'', ''public:'', ''x;'', ''}'']"
  have sl: "scopeLevels (afterBraces ?L) = [0, 1, 1, 0]" by code_simp
  have fin2: "scopeLevels (readFile ?L) ! 2 = 2" by code_simp
  have h1: "2 < length ?L \<and> scopeLevels (readFile ?L) ! 2 \<noteq> scopeLevels (afterBraces ?L) ! 2"
    using sl fin2 by simp
  have h2: "\<forall>j<length ?L. thisLineLabel ?L j \<longrightarrow> 0 \<le> scopeLevels (afterBraces ?L) ! j"
  proof (intro allI impI)
    fix j assume "j < length ?L"
    then have "j = 0 \<or> j = 1 \<or> j = 2 \<or> j = 3" by auto
    then show "0 \<le> scopeLevels (afterBraces ?L) ! j" using sl by auto
  qed
  have h3: "3 < length ?L" "scopeLevels (afterBraces ?L) ! 3 \<le> 0" using sl by simp_all
  have A: "scopeLevels (readFile ?L) ! 2 = scopeLevels (afterBraces ?L) ! 2 + 1
      \<and> \<not> thisLineLabel ?L 2"
    using label_adjustment [of 2 ?L] h1 by blast
  have B: "scopeLevels (readFile ?L) ! 3 = scopeLevels (afterBraces ?L) ! 3"
    using label_adjustment [of 2 ?L] h2 h3 by blast
  from sl A B show ?thesis by (intro conjI) blast+
qed

text \<open>
  Claim C5, as stated: wherever the lines \<^verbatim>\<open>public:\<close>, a tab and \<^verbatim>\<open>doThing();\<close>, and a
  closing brace occur at enclosing brace depth 1, they get the depths 1, 2 and 0. It
  fails when a label region of a greater depth is still open at the \<^verbatim>\<open>public:\<close> line:
  that line then only leaves the old region and opens none of its own. Below, the
  running brace counter at line 5 is 1, no line is a comment, and lines 5 to 7 get the
  depths 1, 1 and 0.
\<close>

theorem scenario_label_depths_counterexample:
  "scopeLevelBefore [''class Foo {'', ''int f(int x) {'', ''switch (x) {'', ''case 1:'',
       ''return 1; } }'', ''public:'', CHR 0x09 # ''doThing();'', ''}''] 5 = 1
   \<and> commentLines (readFile [''class Foo {'', ''int f(int x) {'', ''switch (x) {'', ''case 1:'',
       ''return 1; } }'', ''public:'', CHR 0x09 # ''doThing();'', ''}'']) ! 5 = NO_COMMENT
   \<and> scopeLevels (readFile [''class Foo {'', ''int f(int x) {'', ''switch (x) {'', ''case 1:'',
       ''return 1; } }'', ''public:'', CHR 0x09 # ''doThing();'', ''}''])
      = [0, 1, 2, 3, 4, 1, 1, 0]"
  by code_simp

text \<open>
  Claim C5, amended: let the three lines occur at lines \<open>n\<close>, \<open>n + 1\<close>, \<open>n + 2\<close> of any
  file, with the running brace counter equal to 1 at line \<open>n\<close> and line \<open>n\<close> not a
  comment. Then they get the depths 1, 2 and 0 exactly when \<^verbatim>\<open>labelLevel\<close> is 0 or 1 at
  line \<open>n\<close>: no label region is open there, or one opened by a label at depth 1.
\<close>

theorem scenario_label_depths:
  assumes "Suc (Suc n) < length ls"
    and "ls ! n = ''public:''"
    and "ls ! Suc n = CHR 0x09 # ''doThing();''"
    and "ls ! Suc (Suc n) = ''}''"
    and "scopeLevelBefore ls n = 1"
    and "commentLines (readFile ls) ! n = NO_COMMENT"
  shows "([scopeLevels (readFile ls) ! n, scopeLevels (readFile ls) ! Suc n,
           scopeLevels (readFile ls) ! Suc (Suc n)] = [1, 2, 0])
         = (labelLevelBefore ls n = 0 \<or> labelLevelBefore ls n = 1)"
proof -
  from assms(1) have n: "n < length ls" and n1: "Suc n < length ls" by simp_all
  note ctx = scenario_context [OF assms]
  define L where "L = labelLevelBefore ls n"
  have L1: "labelLevelBefore ls (Suc n) = labelNext L 1 True"
    by (simp add: labelLevelBefore_Suc ctx L_def)
  have L2: "labelLevelBefore ls (Suc (Suc n)) = labelNext (labelNext L 1 True) 1 False"
    by (simp add: labelLevelBefore_Suc [of ls "Suc n"] ctx L1)
  have f0: "scopeLevels (readFile ls) ! n = labelAdjusted L 1 True"
    by (simp add: readFile_scopeLevels_nth [OF n] ctx L_def)
  have f1: "scopeLevels (readFile ls) ! Suc n = labelAdjusted (labelNext L 1 True) 1 False"
    by (simp add: readFile_scopeLevels_nth [OF n1] ctx L1)
  have f2: "scopeLevels (readFile ls) ! Suc (Suc n)
      = labelAdjusted (labelNext (labelNext L 1 True) 1 False) 0 False"
    by (simp add: readFile_scopeLevels_nth [OF assms(1)] ctx L2)
  have "([labelAdjusted L 1 True, labelAdjusted (labelNext L 1 True) 1 False,
          labelAdjusted (labelNext (labelNext L 1 True) 1 False) 0 False] = [1, 2, 0])
        = (L = 0 \<or> L = 1)"
    by (auto simp: labelAdjusted_def labelNext_def)
  then show ?thesis by (simp only: f0 f1 f2 L_def)
qed

theorem scenario_label_depths_witness:
  "scopeLevels (readFile [''class Foo {'', ''public:'', CHR 0x09 # ''doThing();'', ''}''])
     = [0, 1, 2, 0]
   \<and> labelLevelBefore [''class Foo {'', ''public:'', CHR 0x09 # ''doThing();'', ''}''] 1 = 0
   \<and> [scopeLevels (readFile [''class Foo {'', ''public:'', CHR 0x09 # ''doThing();'', ''}'']) ! 1,
       scopeLevels (readFile [''class Foo {'', ''public:'', CHR 0x09 # ''doThing();'', ''}'']) ! Suc 1,
       scopeLevels (readFile [''class Foo {'', ''public:'', CHR 0x09 # ''doThing();'', ''}''])
         ! Suc (Suc 1)] = [1, 2, 0]"
proof -
  let ?L = "[''class Foo {'', ''public:'', CHR 0x09 # ''doThing();'', ''}'']"
  have h1: "Suc (Suc 1) < length ?L" by simp
  have h2: "?L ! 1 = ''public:''" by simp
  have h3: "?L ! Suc 1 = CHR 0x09 # ''doThing();''" by simp
  have h4: "?L ! Suc (Suc 1) = ''}''" by simp
  have h5: "scopeLevelBefore ?L 1 = 1" by code_simp
  have h6: "commentLines (readFile ?L) ! 1 = NO_COMMENT" by code_simp
  have lab: "labelLevelBefore ?L 1 = 0" by code_simp
  have all: "scopeLevels (readFile ?L) = [0, 1, 2, 0]" by code_simp
  from scenario_label_depths [OF h1 h2 h3 h4 h5 h6] lab
  have "[scopeLevels (readFile ?L) ! 1, scopeLevels (readFile ?L) ! Suc 1,
         scopeLevels (readFile ?L) ! Suc (Suc 1)] = [1, 2, 0]" by blast
  with all lab show ?thesis by (intro conjI)
qed

text \<open>
  Claim C6, as stated: when a line opens a block comment and no line from there on
  closes it, every line from the opener to the end of the file is tagged \<open>C_COMMENT\<close>.
  It fails on a later line whose first token starts with \<^verbatim>\<open>//\<close>.
\<close>

theorem unterminated_block_comment_counterexample:
  "stringStartsWith (getFirstToken ([''/* start'', ''// body''] ! 0)) C_COMMENT_START
   \<and> \<not> stringEndsWith (getLastToken ([''/* start'', ''// body''] ! 0)) C_COMMENT_END
   \<and> \<not> stringEndsWith (getLastToken ([''/* start'', ''// body''] ! 1)) C_COMMENT_END
   \<and> commentLines (readFile [''/* start'', ''// body'']) ! 1 \<noteq> C_COMMENT"
  by code_simp

text \<open>
  Claim C6, amended: when line \<open>k\<close> opens a block comment and no line from \<open>k\<close> on
  closes it, the flag is still set when the pass ends, and every line from \<open>k\<close> to the
  end of the file is tagged \<open>C_COMMENT\<close>, except the lines whose first token starts with
  \<^verbatim>\<open>//\<close>, which are tagged \<open>CPP_COMMENT\<close>.
\<close>

theorem unterminated_block_comment:
  assumes "k < length ls" "stringStartsWith (getFirstToken (ls ! k)) C_COMMENT_START"
    and "\<forall>j. k \<le> j \<and> j < length ls \<longrightarrow> \<not> stringEndsWith (getLastToken (ls ! j)) C_COMMENT_END"
  shows "commentStateBefore ls (length ls)
     \<and> (\<forall>j. k \<le> j \<and> j < length ls \<longrightarrow>
          commentLines (readFile ls) ! j =
            (if stringStartsWith (getFirstToken (ls ! j)) DOUBLE_SLASH then CPP_COMMENT
             else C_COMMENT))"
proof (intro conjI allI impI)
  show "commentStateBefore ls (length ls)"
    using commentStateBefore_stays [OF assms, of "length ls"] assms(1) by simp
next
  fix j assume j: "k \<le> j \<and> j < length ls"
  show "commentLines (readFile ls) ! j =
            (if stringStartsWith (getFirstToken (ls ! j)) DOUBLE_SLASH then CPP_COMMENT
             else C_COMMENT)"
  proof (cases "j = k")
    case True
    with assms j show ?thesis by (simp add: commentLines_nth commentTag_def)
  next
    case False
    with j have "commentStateBefore ls j" using commentStateBefore_stays [OF assms, of j] by simp
    with j show ?thesis by (simp add: commentLines_nth commentTag_def)
  qed
qed

theorem unterminated_block_comment_witness:
  "commentStateBefore [''/* start'', ''body'', ''// more''] 3
   \<and> commentLines (readFile [''/* start'', ''body'', ''// more'']) = [C_COMMENT, C_COMMENT, CPP_COMMENT]"
proof -
  let ?L = "[''/* start'', ''body'', ''// more'']"
  have h1: "0 < length ?L" by simp
  have h2: "stringStartsWith (getFirstToken (?L ! 0)) C_COMMENT_START" by code_simp
  have h3: "\<forall>j. 0 \<le> j \<and> j < length ?L \<longrightarrow> \<not> stringEndsWith (getLastToken (?L ! j)) C_COMMENT_END"
  proof (intro allI impI)
    fix j assume "0 \<le> j \<and> j < length ?L"
    then have "j = 0 \<or> j = 1 \<or> j = 2" by auto
    moreover have "\<not> stringEndsWith (getLastToken (?L ! 0)) C_COMMENT_END" by code_simp
    moreover have "\<not> stringEndsWith (getLastToken (?L ! 1)) C_COMMENT_END" by code_simp
    moreover have "\<not> stringEndsWith (getLastToken (?L ! 2)) C_COMMENT_END" by code_simp
    ultimately show "\<not> stringEndsWith (getLastToken (?L ! j)) C_COMMENT_END" by blast
  qed
  have len: "length ?L = 3" by simp
  have a: "commentStateBefore ?L 3"
    using unterminated_block_comment [OF h1 h2 h3] unfolding len by (rule conjunct1)
  have b: "commentLines (readFile ?L) = [C_COMMENT, C_COMMENT, CPP_COMMENT]" by code_simp
  from a b show ?thesis by (intro conjI)
qed

text \<open>
  Claim C7, as stated: for every line, the concatenation of the tokens produced from
  position 0 until the empty token equals the line with its white space removed.
  It fails on a line that holds a character outside the tokenizer's classes: the token
  loop ends at the control character and the rest of the line is dropped.
\<close>

theorem tokens_concat_counterexample:
  "concat (getTokens [CHR ''a'', CHR 0x01, CHR ''b''] 0)
    \<noteq> filter (\<lambda>c. \<not> isspace c) [CHR ''a'', CHR 0x01, CHR ''b'']"
  by code_simp

text \<open>
  Claim C7, amended: the concatenation of the tokens equals, with white space removed,
  the longest prefix of the line made only of characters the tokenizer classifies (white
  space, letters, digits, underscore, punctuation); for a line made only of such
  characters it is the whole line with its white space removed.
\<close>

theorem tokens_concat:
  "concat (getTokens s 0) = filter (\<lambda>c. \<not> isspace c) (takeWhile tokenChar s)
   \<and> ((\<forall>c\<in>set s. tokenChar c) \<longrightarrow>
        concat (getTokens s 0) = filter (\<lambda>c. \<not> isspace c) s)"
proof -
  have eq: "concat (getTokens s 0) = filter (\<lambda>c. \<not> isspace c) (takeWhile tokenChar s)"
    using concat_getTokens [of s 0] by simp
  moreover have "(\<forall>c\<in>set s. tokenChar c) \<longrightarrow> takeWhile tokenChar s = s"
    by (simp add: takeWhile_eq_all_conv)
  ultimately show ?thesis by metis
qed

theorem tokens_concat_witness:
  "getTokens ''int x=5;'' 0 = [''int'', ''x'', ''='', ''5'', '';'']
   \<and> concat (getTokens ''int x=5;'' 0) = filter (\<lambda>c. \<not> isspace c) ''int x=5;''"
proof -
  have h: "\<forall>c\<in>set ''int x=5;''. tokenChar c"
    by (simp add: tokenChar_def isspace_def isalpha_def isdigit_def ispunct_def)
  have t: "getTokens ''int x=5;'' 0 = [''int'', ''x'', ''='', ''5'', '';'']"
    by code_simp
  from h t show ?thesis using tokens_concat [of "''int x=5;''"] by blast
qed

text \<open>
  Claim C8: for a line number \<open>N\<close> of the file, \<^verbatim>\<open>mayBeRunOnLine\<close> is true exactly when
  \<open>N \<ge> 1\<close>, lines \<open>N\<close> and \<open>N - 1\<close> have the same depth, line \<open>N - 1\<close> is no comment
  and not blank, and the last character of line \<open>N - 1\<close> that is no space is not a
  semicolon; for \<open>N = 0\<close> it is false.
\<close>

theorem run_on_line:
  assumes "N < length ls"
  shows "mayBeRunOnLine (readFile ls) N =
     (N \<ge> 1
      \<and> scopeLevels (readFile ls) ! N = scopeLevels (readFile ls) ! (N - 1)
      \<and> commentLines (readFile ls) ! (N - 1) = NO_COMMENT
      \<and> (\<exists>c\<in>set (ls ! (N - 1)). \<not> isspace c)
      \<and> last (filter (\<lambda>c. \<not> isspace c) (ls ! (N - 1))) \<noteq> SEMICOLON)"
proof (cases "isBlank (ls ! (N - 1))")
  case True
  then show ?thesis by (auto simp: mayBeRunOnLine_def readFile_fileLines isBlank_iff)
next
  case False
  then have "ls ! (N - 1) ! nat (getLastNonspacePos (ls ! (N - 1)))
      = last (filter (\<lambda>c. \<not> isspace c) (ls ! (N - 1)))"
    by (simp add: getLastNonspacePos_last)
  moreover from False have "\<exists>c\<in>set (ls ! (N - 1)). \<not> isspace c" by (simp add: isBlank_iff)
  ultimately show ?thesis using False
    by (auto simp: mayBeRunOnLine_def readFile_fileLines Let_def)
qed

theorem run_on_line_witness:
  "mayBeRunOnLine (readFile [''int x ='', ''   5;'', ''y'']) 1
   \<and> \<not> mayBeRunOnLine (readFile [''int x ='', ''   5;'', ''y'']) 2
   \<and> \<not> mayBeRunOnLine (readFile [''int x ='', ''   5;'', ''y'']) 0"
proof -
  let ?L = "[''int x ='', ''   5;'', ''y'']"
  have s: "scopeLevels (readFile ?L) = [0, 0, 0]" by code_simp
  have c: "commentLines (readFile ?L) = [NO_COMMENT, NO_COMMENT, NO_COMMENT]" by code_simp
  have l0: "last (filter (\<lambda>c. \<not> isspace c) (?L ! 0)) \<noteq> SEMICOLON" by code_simp
  have l1: "last (filter (\<lambda>c. \<not> isspace c) (?L ! 1)) = SEMICOLON" by code_simp
  have e0: "\<exists>c\<in>set (?L ! 0). \<not> isspace c" by code_simp
  have "mayBeRunOnLine (readFile ?L) 1"
    using run_on_line [of 1 ?L] s c l0 e0 by simp
  moreover have "\<not> mayBeRunOnLine (readFile ?L) 2"
    using run_on_line [of 2 ?L] l1 by simp
  moreover have "\<not> mayBeRunOnLine (readFile ?L) 0"
    using run_on_line [of 0 ?L] by simp
  ultimately show ?thesis by (intro conjI)
qed

text \<open>
  Claim C9: when a line that is no comment has \<^verbatim>\<open>class\<close> or \<^verbatim>\<open>struct\<close> as its first
  token and no token after it, the iteration of \<^verbatim>\<open>scanNewTypeDefs\<close> at that line
  appends the empty string to the registry, the registry of the scanned file holds the
  empty string, and \<^verbatim>\<open>isNewType\<close> answers true for it.
\<close>

theorem empty_type_name_registered:
  assumes "i < length ls"
    and "commentLines (readFile ls) ! i = NO_COMMENT"
    and "isClassKeyword (fst (getNextToken (ls ! i) 0))"
    and "fst (getNextToken (ls ! i) (snd (getNextToken (ls ! i) 0))) = []"
  shows "scanNewTypeDefs_body (scanCommentLines (newScanner ls)) nt i = nt @ [[]]
     \<and> [] \<in> set (newTypes (readFile ls))
     \<and> isNewType (readFile ls) []"
proof -
  let ?st = "scanCommentLines (newScanner ls)"
  have body: "scanNewTypeDefs_body ?st nt' i = nt' @ [[]]" for nt'
    using assms
    by (simp add: scanNewTypeDefs_body_def isCommentLine_def scanCommentLines_fileLines
        scanCommentLines_commentLines Let_def)
  have "i \<in> set [0..<length ls]" using assms(1) by simp
  then have "[] \<in> set (foldl (scanNewTypeDefs_body ?st) [] [0..<length ls])"
    by (rule scanNewTypeDefs_fold_adds) (simp add: body)
  then have mem: "[] \<in> set (newTypes (readFile ls))" by (simp add: readFile_newTypes)
  from body mem show ?thesis by (simp add: isNewType_def)
qed

theorem empty_type_name_registered_witness:
  "newTypes (readFile [''class'', ''struct Foo {'', ''};'']) = [[], ''Foo'']
   \<and> isNewType (readFile [''class'', ''struct Foo {'', ''};'']) []"
proof -
  let ?L = "[''class'', ''struct Foo {'', ''};'']"
  have h1: "0 < length ?L" by simp
  have h2: "commentLines (readFile ?L) ! 0 = NO_COMMENT" by code_simp
  have h3: "isClassKeyword (fst (getNextToken (?L ! 0) 0))" by code_simp
  have h4: "fst (getNextToken (?L ! 0) (snd (getNextToken (?L ! 0) 0))) = []" by code_simp
  have v: "newTypes (readFile ?L) = [[], ''Foo'']" by code_simp
  from empty_type_name_registered [OF h1 h2 h3 h4] have "isNewType (readFile ?L) []" by blast
  with v show ?thesis by (intro conjI)
qed

text \<open>
  Claim C10: the token loop of \<^verbatim>\<open>getLastToken\<close>, written as a loop that may fail to
  return, returns for every string (with the value of the total model); every call
  of \<^verbatim>\<open>getNextToken\<close> either returns the empty token or strictly advances the position;
  and at a character that is neither white space, letter, underscore, digit nor
  punctuation it returns the empty token and leaves the position unchanged, so the
  iteration over the tokens ends there.
\<close>

theorem tokenizer_terminates:
  "getLastToken_run s = Some (getLastToken s)
   \<and> (fst (getNextToken s pos) = [] \<or> pos < snd (getNextToken s pos))
   \<and> (pos < length s \<and> \<not> isspace (s ! pos) \<and> \<not> isalpha (s ! pos) \<and> s ! pos \<noteq> CHR ''_''
        \<and> \<not> isdigit (s ! pos) \<and> \<not> ispunct (s ! pos)
      \<longrightarrow> getNextToken s pos = ([], pos) \<and> getTokens s pos = [])"
proof (intro conjI impI)
  show "getLastToken_run s = Some (getLastToken s)"
    by (simp add: getLastToken_run_def getLastToken_def getLastToken_while_total)
next
  show "fst (getNextToken s pos) = [] \<or> pos < snd (getNextToken s pos)"
    using getNextToken_nonempty [of s pos] by blast
next
  assume a: "pos < length s \<and> \<not> isspace (s ! pos) \<and> \<not> isalpha (s ! pos) \<and> s ! pos \<noteq> CHR ''_''
        \<and> \<not> isdigit (s ! pos) \<and> \<not> ispunct (s ! pos)"
  then show "getNextToken s pos = ([], pos)" by (simp add: getNextToken_stuck)
  then show "getTokens s pos = []" by (simp add: getTokens_empty)
qed

theorem tokenizer_terminates_witness:
  "getLastToken_run [CHR ''a'', CHR 0x01, CHR ''b''] = Some ''a''
   \<and> getNextToken [CHR ''a'', CHR 0x01, CHR ''b''] 1 = ([], 1)
   \<and> getTokens [CHR ''a'', CHR 0x01, CHR ''b''] 1 = []"
proof -
  let ?s = "[CHR ''a'', CHR 0x01, CHR ''b'']"
  have v: "getLastToken ?s = ''a''" by code_simp
  have h: "1 < length ?s \<and> \<not> isspace (?s ! 1) \<and> \<not> isalpha (?s ! 1) \<and> ?s ! 1 \<noteq> CHR ''_''
        \<and> \<not> isdigit (?s ! 1) \<and> \<not> ispunct (?s ! 1)"
    by code_simp
  from tokenizer_terminates [of ?s 1] h
  have "getLastToken_run ?s = Some (getLastToken ?s)"
    and "getNextToken ?s 1 = ([], 1)" and "getTokens ?s 1 = []"
    by blast+
  with v show ?thesis by simp
qed

end
